theory Spec2Isabelle
  imports Complex_Main "HOL-Library.Product_Lexorder" "HOL-Library.Multiset"
begin

section \<open>Python strings\<close>

text \<open>
  A Python \<open>str\<close> is modelled as a \<open>string\<close>, one \<open>char\<close> per code point, so the
  model covers text whose code points lie below 256. The functions below are the
  \<open>str\<close> methods the two scripts call.
\<close>

text \<open>\<open>s.startswith(p)\<close>\<close>

definition startswith :: "string \<Rightarrow> string \<Rightarrow> bool" where
  "startswith s p = (take (length p) s = p)"

text \<open>\<open>sub in s\<close> for two strings: \<open>sub\<close> occurs in \<open>s\<close> as a contiguous block.\<close>

fun isin :: "string \<Rightarrow> string \<Rightarrow> bool" where
  "isin sub [] = (sub = [])"
| "isin sub (c # cs) = (startswith (c # cs) sub \<or> isin sub cs)"

text \<open>
  The leftmost occurrence of \<open>sep\<close> in a string: the text before it and the text after
  it. \<open>sep\<close> is never empty where the scripts split.
\<close>

fun split_first :: "string \<Rightarrow> string \<Rightarrow> (string \<times> string) option" where
  "split_first sep [] = None"
| "split_first sep (c # cs) =
     (if startswith (c # cs) sep then Some ([], drop (length sep) (c # cs))
      else (case split_first sep cs of
              None \<Rightarrow> None
            | Some (h, t) \<Rightarrow> Some (c # h, t)))"

text \<open>\<open>s.split(sep, maxsplit)\<close>: at most \<open>maxsplit\<close> cuts, taken from the left.\<close>

fun py_split :: "string \<Rightarrow> nat \<Rightarrow> string \<Rightarrow> string list" where
  "py_split sep 0 s = [s]"
| "py_split sep (Suc n) s =
     (case split_first sep s of
        None \<Rightarrow> [s]
      | Some (h, t) \<Rightarrow> h # py_split sep n t)"

text \<open>
  \<open>c.isspace()\<close> below code point 256: tab, line feed, vertical tab, form feed, carriage
  return, the four separators 28 to 31, space, next line (133) and no-break space (160).
\<close>

definition is_space :: "char \<Rightarrow> bool" where
  "is_space c = (of_char c \<in> {9, 10, 11, 12, 13, 28, 29, 30, 31, 32, 133, 160 :: nat})"

text \<open>\<open>s.strip()\<close>\<close>

definition py_strip :: "string \<Rightarrow> string" where
  "py_strip s = rev (dropWhile is_space (rev (dropWhile is_space s)))"

text \<open>
  \<open>s.lower()\<close> below code point 256: the letters A to Z, and the capital letters of
  Latin-1 (192 to 222 without the multiplication sign 215), move up by 32.
\<close>

definition lower_char :: "char \<Rightarrow> char" where
  "lower_char c =
     (let n = (of_char c :: nat) in
      if (65 \<le> n \<and> n \<le> 90) \<or> (192 \<le> n \<and> n \<le> 222 \<and> n \<noteq> 215)
      then char_of (n + 32) else c)"

definition lower :: "string \<Rightarrow> string" where
  "lower s = map lower_char s"

text \<open>\<open>s.count(sub)\<close>: occurrences of a non-empty \<open>sub\<close>, counted without overlap from the left.\<close>

function str_count :: "string \<Rightarrow> string \<Rightarrow> nat" where
  "str_count sub [] = 0"
| "str_count sub (c # cs) =
     (if sub \<noteq> [] \<and> startswith (c # cs) sub
      then Suc (str_count sub (drop (length sub) (c # cs)))
      else str_count sub cs)"
  by pat_completeness auto
termination
  by (relation "measure (\<lambda>(sub, s). length s)") (auto simp: neq_Nil_conv)

section \<open>Header values\<close>

text \<open>
  What \<open>yaml.safe_load\<close> can hand back: \<open>None\<close>, a boolean, an integer, a string, a
  list or a dict.
\<close>

datatype yaml =
    YNull
  | YBool bool
  | YInt int
  | YStr string
  | YSeq "yaml list"
  | YMap "(yaml \<times> yaml) list"

datatype py_error = YAMLError | TypeError | AttributeError | IndexError

text \<open>Truth value of a header value, as \<open>yaml_data or {}\<close> and \<open>bool(yaml_data)\<close> test it.\<close>

fun truthy :: "yaml \<Rightarrow> bool" where
  "truthy YNull = False"
| "truthy (YBool b) = b"
| "truthy (YInt i) = (i \<noteq> 0)"
| "truthy (YStr s) = (s \<noteq> [])"
| "truthy (YSeq xs) = (xs \<noteq> [])"
| "truthy (YMap kvs) = (kvs \<noteq> [])"

text \<open>
  \<open>k in y\<close> for a string \<open>k\<close>: key membership in a dict, substring test in a string,
  element membership in a list; any other value is not iterable.
\<close>

fun py_contains :: "string \<Rightarrow> yaml \<Rightarrow> py_error + bool" where
  "py_contains k (YMap kvs) = Inr (YStr k \<in> fst ` set kvs)"
| "py_contains k (YStr s) = Inr (isin k s)"
| "py_contains k (YSeq xs) = Inr (YStr k \<in> set xs)"
| "py_contains k y = Inl TypeError"

text \<open>\<open>y.get(k, d)\<close>: only a dict has the method.\<close>

fun py_get :: "yaml \<Rightarrow> string \<Rightarrow> yaml \<Rightarrow> py_error + yaml" where
  "py_get (YMap kvs) k d = Inr (case map_of kvs (YStr k) of Some v \<Rightarrow> v | None \<Rightarrow> d)"
| "py_get y k d = Inl AttributeError"

text \<open>\<open>len(y)\<close>: strings, lists and dicts have a length.\<close>

fun py_len :: "yaml \<Rightarrow> py_error + nat" where
  "py_len (YStr s) = Inr (length s)"
| "py_len (YSeq xs) = Inr (length xs)"
| "py_len (YMap kvs) = Inr (length (remdups (map fst kvs)))"
| "py_len y = Inl TypeError"

text \<open>Sequencing of steps that may raise.\<close>

fun bindE :: "'e + 'a \<Rightarrow> ('a \<Rightarrow> 'e + 'b) \<Rightarrow> 'e + 'b" where
  "bindE (Inl e) f = Inl e"
| "bindE (Inr x) f = f x"

section \<open>Document parser\<close>

text \<open>
  \<open>extract_yaml\<close> of \<open>intelligent_dedupe.py\<close>; \<open>extract_yaml_frontmatter\<close> of
  \<open>collect_agents.py\<close> is the same code. The YAML library is not part of the
  repository: \<open>safe_load\<close> is a parameter, a function from the header text to the loaded
  value or to the exception it raises.
\<close>

type_synonym yaml_loader = "string \<Rightarrow> py_error + yaml"

text \<open>The body of the \<open>try\<close> block.\<close>

definition extract_yaml_try :: "yaml_loader \<Rightarrow> string list \<Rightarrow> py_error + (yaml \<times> string)" where
  "extract_yaml_try safe_load parts =
     bindE (safe_load (parts ! 1))
       (\<lambda>yaml_data. Inr (if truthy yaml_data then yaml_data else YMap [], py_strip (parts ! 2)))"

definition extract_yaml :: "yaml_loader \<Rightarrow> string \<Rightarrow> py_error + (yaml \<times> string)" where
  "extract_yaml safe_load content =
     (if startswith content ''---'' then
        (let parts = py_split ''---'' 2 content in
         if length parts \<ge> 3 then
           (case extract_yaml_try safe_load parts of
              Inr r \<Rightarrow> Inr r
            | Inl e \<Rightarrow> Inr (YMap [], content))
         else Inr (YMap [], content))
      else Inr (YMap [], content))"

text \<open>
  The condition in the specification's words: the text begins with a line that is
  exactly three hyphens, and a later line is exactly three hyphens too.
\<close>

fun lines_of :: "string \<Rightarrow> string list" where
  "lines_of [] = [[]]"
| "lines_of (c # cs) =
     (if c = CHR 0x0A then [] # lines_of cs
      else (case lines_of cs of
              l # ls \<Rightarrow> (c # l) # ls
            | [] \<Rightarrow> [[c]]))"

definition delimiter_framed :: "string \<Rightarrow> bool" where
  "delimiter_framed text =
     (case lines_of text of
        l # ls \<Rightarrow> l = ''---'' \<and> ''---'' \<in> set ls
      | [] \<Rightarrow> False)"

text \<open>
  \<open>yaml.safe_load\<close> of a text that holds nothing but spaces and line feeds is \<open>None\<close>.
  This loader agrees with the library on such texts and rejects every other text; the
  examples that use it hand it such texts only.
\<close>

definition is_blank :: "char \<Rightarrow> bool" where
  "is_blank c = (c = CHR '' '' \<or> c = CHR 0x0A)"

definition empty_document_loader :: yaml_loader where
  "empty_document_loader s = (if list_all is_blank s then Inr YNull else Inl YAMLError)"

text \<open>A horizontal rule of six hyphens, a line feed, and the word Hello.\<close>

definition rule_document :: string where
  "rule_document = ''------'' @ [CHR 0x0A] @ ''Hello''"

section \<open>Records and quality scoring of the deduplicator\<close>

text \<open>
  The \<open>Agent\<close> dataclass of \<open>intelligent_dedupe.py\<close>. A \<open>Path\<close> is its list of
  components. The score is declared \<open>float\<close> and only ever holds the integer sums the
  scorer returns.
\<close>

type_synonym path = "string list"

record agent =
  path :: path
  name :: string
  content :: string
  yaml_data :: yaml
  quality_score :: int
  content_length :: int
  has_yaml :: bool
  has_tools :: bool
  has_structure :: bool
  has_examples :: bool
  source_repo :: string

text \<open>1. Content length (max 20 points).\<close>

definition length_points :: "int \<Rightarrow> int" where
  "length_points n =
     (if n > 3000 then 20
      else if n > 2000 then 15
      else if n > 1000 then 10
      else if n > 500 then 5
      else 0)"

text \<open>
  2. YAML frontmatter quality. The membership tests, \<open>get\<close> and \<open>len\<close> raise on header
  values that do not support them, in the order the source evaluates them.
\<close>

definition description_points :: "yaml \<Rightarrow> py_error + int" where
  "description_points y =
     bindE (py_contains ''description'' y) (\<lambda>present.
       if present then
         bindE (py_get y ''description'' (YStr [])) (\<lambda>d.
         bindE (py_len d) (\<lambda>desc_len.
           Inr (5 + (if desc_len > 100 then 5 else if desc_len > 50 then 3 else 0))))
       else Inr 0)"

definition tools_points :: "yaml \<Rightarrow> py_error + int" where
  "tools_points y =
     bindE (py_contains ''tools'' y) (\<lambda>present.
       if present then
         bindE (py_get y ''tools'' (YSeq [])) (\<lambda>t.
         bindE (py_len t) (\<lambda>tool_count.
           Inr (5 + (if tool_count > 5 then 5 else if tool_count > 2 then 3 else 0))))
       else Inr 0)"

definition yaml_points :: "agent \<Rightarrow> py_error + int" where
  "yaml_points a =
     (if has_yaml a then
        bindE (py_contains ''name'' (yaml_data a)) (\<lambda>has_name.
        bindE (description_points (yaml_data a)) (\<lambda>dp.
        bindE (tools_points (yaml_data a)) (\<lambda>tp.
          Inr (5 + (if has_name then 5 else 0) + dp + tp))))
      else Inr 0)"

text \<open>3. Content structure. The last test is the one that also sets \<open>has_examples\<close>.\<close>

definition examples_marker :: "agent \<Rightarrow> bool" where
  "examples_marker a = (isin ''## examples'' (lower (content a)) \<or> isin ''```'' (content a))"

definition structure_points :: "agent \<Rightarrow> int" where
  "structure_points a =
     (let content_lower = lower (content a) in
      (if isin ''## responsibilities'' content_lower \<or> isin ''## your role'' content_lower
       then 5 else 0)
      + (if isin ''## guidelines'' content_lower \<or> isin ''## principles'' content_lower
         then 5 else 0)
      + (if isin ''## workflow'' content_lower \<or> isin ''## process'' content_lower
         then 5 else 0)
      + (if examples_marker a then 5 else 0))"

text \<open>4. Specificity indicators.\<close>

definition specificity_points :: "agent \<Rightarrow> int" where
  "specificity_points a =
     (let content_lower = lower (content a) in
      (if isin ''you are'' content_lower \<or> isin ''your role'' content_lower then 5 else 0)
      + (if isin ''must'' content_lower \<or> isin ''should'' content_lower then 5 else 0)
      + (if isin ''step'' content_lower \<or> isin ''process'' content_lower then 5 else 0))"

text \<open>5. Code examples bonus.\<close>

definition code_points :: "agent \<Rightarrow> int" where
  "code_points a =
     (let code_blocks = str_count ''```'' (content a) in
      if code_blocks \<ge> 4 then 10 else if code_blocks \<ge> 2 then 5 else 0)"

text \<open>6. Source repository quality bonus.\<close>

definition quality_repos :: "string list" where
  "quality_repos = [''voltagent'', ''wshobson'', ''0xfurai'', ''davepoon'']"

definition repo_in_source :: "string \<Rightarrow> string \<Rightarrow> bool" where
  "repo_in_source source repo = isin repo (lower source)"

definition repo_points :: "agent \<Rightarrow> int" where
  "repo_points a =
     (if list_ex (repo_in_source (source_repo a)) quality_repos then 10 else 0)"

text \<open>
  \<open>calculate_quality_score\<close> of \<open>intelligent_dedupe.py\<close>. It returns the score and leaves
  the record with \<open>has_examples\<close> set when the examples test holds; the header tests
  come first, so a scorer that raises has not touched the record.
\<close>

definition calculate_quality_score :: "agent \<Rightarrow> py_error + (int \<times> agent)" where
  "calculate_quality_score a =
     bindE (yaml_points a) (\<lambda>yp.
       Inr (length_points (content_length a) + yp + structure_points a
              + specificity_points a + code_points a + repo_points a,
            if examples_marker a then a\<lparr>has_examples := True\<rparr> else a))"

text \<open>
  The signals of the score other than the description: everything read from the content
  and the origin, and the header tests for \<open>name\<close> and \<open>tools\<close>.
\<close>

definition other_signals :: "agent \<Rightarrow> int \<times> bool \<times> (py_error + bool) \<times> (py_error + int)" where
  "other_signals a =
     (length_points (content_length a) + structure_points a + specificity_points a
        + code_points a + repo_points a,
      has_yaml a, py_contains ''name'' (yaml_data a), tools_points (yaml_data a))"

text \<open>The description of a header, when the header is a dict that has one.\<close>

fun header_description :: "yaml \<Rightarrow> yaml option" where
  "header_description (YMap kvs) = map_of kvs (YStr ''description'')"
| "header_description y = None"

text \<open>Header values with a length.\<close>

fun sized :: "yaml \<Rightarrow> bool" where
  "sized (YStr s) = True"
| "sized (YSeq xs) = True"
| "sized (YMap kvs) = True"
| "sized y = False"

text \<open>
  A header on which the scorer's tests are all defined: a dict whose \<open>description\<close> and
  \<open>tools\<close> values, where present, have a length.
\<close>

fun scorable_header :: "yaml \<Rightarrow> bool" where
  "scorable_header (YMap kvs) =
     ((case map_of kvs (YStr ''description'') of None \<Rightarrow> True | Some v \<Rightarrow> sized v)
      \<and> (case map_of kvs (YStr ''tools'') of None \<Rightarrow> True | Some v \<Rightarrow> sized v))"
| "scorable_header y = False"

section \<open>Classifier\<close>

text \<open>
  The taxonomy of \<open>AgentCollector.__init__\<close>, in declaration order. A Python dict
  iterates in insertion order, so the nested dict literal is an ordered table.
\<close>

definition categories :: "(string \<times> (string \<times> string list) list) list" where
  "categories =
     [(''languages'',
        [(''python'', [''python'', ''py'', ''pip'', ''django'', ''flask'', ''fastapi'']),
         (''javascript'', [''javascript'', ''js'', ''node'', ''npm'']),
         (''typescript'', [''typescript'', ''ts'', ''tsx'']),
         (''java'', [''java'', ''spring'', ''maven'']),
         (''csharp'', [''c#'', ''csharp'', ''dotnet'', ''.net'']),
         (''cpp'', [''c++'', ''cpp'', ''cmake'']),
         (''rust'', [''rust'', ''cargo'']),
         (''go'', [''go'', ''golang'']),
         (''ruby'', [''ruby'', ''rails'']),
         (''php'', [''php'', ''laravel'']),
         (''swift'', [''swift'', ''ios'']),
         (''kotlin'', [''kotlin'', ''android''])]),
      (''frameworks'',
        [(''react'', [''react'', ''jsx'', ''hooks'']),
         (''vue'', [''vue'', ''vuex'', ''pinia'']),
         (''angular'', [''angular'', ''rxjs'']),
         (''nextjs'', [''next'', ''nextjs'', ''vercel'']),
         (''express'', [''express'', ''nodejs'']),
         (''django'', [''django'', ''drf'']),
         (''flask'', [''flask'', ''werkzeug'']),
         (''fastapi'', [''fastapi'', ''pydantic'']),
         (''spring'', [''spring'', ''boot'']),
         (''rails'', [''rails'', ''activerecord''])]),
      (''tasks'',
        [(''testing'', [''test'', ''testing'', ''tdd'', ''bdd'', ''jest'', ''pytest'', ''unit'']),
         (''debugging'', [''debug'', ''fix'', ''bug'', ''error'', ''troubleshoot'']),
         (''refactoring'', [''refactor'', ''optimize'', ''clean'', ''improve'']),
         (''security'', [''security'', ''audit'', ''vulnerability'', ''penetration'']),
         (''review'', [''review'', ''code review'', ''quality'']),
         (''documentation'', [''document'', ''docs'', ''readme'', ''api'']),
         (''deployment'', [''deploy'', ''ci/cd'', ''docker'', ''kubernetes'']),
         (''automation'', [''automate'', ''automation'', ''workflow'', ''pipeline''])]),
      (''specialized'',
        [(''devops'', [''devops'', ''infrastructure'', ''terraform'', ''ansible'']),
         (''data'', [''data'', ''analysis'', ''ml'', ''ai'', ''science'', ''pandas'']),
         (''mobile'', [''mobile'', ''ios'', ''android'', ''react-native'', ''flutter'']),
         (''cloud'', [''aws'', ''azure'', ''gcp'', ''cloud'', ''serverless'']),
         (''database'', [''database'', ''sql'', ''nosql'', ''postgres'', ''mongodb'']),
         (''frontend'', [''frontend'', ''ui'', ''ux'', ''css'', ''design'']),
         (''backend'', [''backend'', ''api'', ''server'', ''microservice'']),
         (''blockchain'', [''blockchain'', ''crypto'', ''web3'', ''solidity'']),
         (''game'', [''game'', ''unity'', ''unreal'', ''godot'']),
         (''iot'', [''iot'', ''embedded'', ''arduino'', ''raspberry''])])]"

text \<open>The three tests of the keyword loop of \<open>categorize_agent\<close>.\<close>

definition keyword_score :: "string \<Rightarrow> string \<Rightarrow> string \<Rightarrow> string \<Rightarrow> int" where
  "keyword_score name_lower desc_lower content_lower keyword =
     (if isin keyword name_lower then 3 else 0)
     + (if isin keyword desc_lower then 2 else 0)
     + (if isin keyword content_lower then 1 else 0)"

definition subcategory_score :: "string \<Rightarrow> string \<Rightarrow> string \<Rightarrow> string list \<Rightarrow> int" where
  "subcategory_score name_lower desc_lower content_lower keywords =
     sum_list (map (keyword_score name_lower desc_lower content_lower) keywords)"

text \<open>
  The loops over the subcategories of a category and over the categories, carrying
  \<open>best_category\<close>, \<open>best_subcategory\<close> and \<open>best_score\<close>.
\<close>

fun scan_subcategories ::
  "string \<Rightarrow> string \<Rightarrow> string \<Rightarrow> string \<Rightarrow> (string \<times> string list) list
   \<Rightarrow> string \<times> string \<times> int \<Rightarrow> string \<times> string \<times> int" where
  "scan_subcategories n d c category [] best = best"
| "scan_subcategories n d c category ((subcategory, keywords) # rest)
     (best_category, best_subcategory, best_score) =
     (let score = subcategory_score n d c keywords in
      scan_subcategories n d c category rest
        (if score > best_score then (category, subcategory, score)
         else (best_category, best_subcategory, best_score)))"

fun scan_categories ::
  "string \<Rightarrow> string \<Rightarrow> string \<Rightarrow> (string \<times> (string \<times> string list) list) list
   \<Rightarrow> string \<times> string \<times> int \<Rightarrow> string \<times> string \<times> int" where
  "scan_categories n d c [] best = best"
| "scan_categories n d c ((category, subcategories) # rest) best =
     scan_categories n d c rest (scan_subcategories n d c category subcategories best)"

text \<open>
  The taxonomy as one table of (category, subcategory, keywords) rows in declaration
  order, and the accumulated score of a row for a record.
\<close>

definition taxonomy_rows :: "(string \<times> string \<times> string list) list" where
  "taxonomy_rows =
     concat (map (\<lambda>(category, subcategories).
                    map (\<lambda>(subcategory, keywords). (category, subcategory, keywords))
                      subcategories)
              categories)"

section \<open>Records and quality scoring of the collector\<close>

text \<open>The \<open>Agent\<close> dataclass of \<open>collect_agents.py\<close>.\<close>

record collected_agent =
  original_path :: string
  c_source_repo :: string
  c_name :: string
  description :: string
  c_content :: string
  content_hash :: string
  yaml_frontmatter :: yaml
  tools :: yaml
  category :: string
  subcategory :: string
  agent_id :: int
  c_quality_score :: int

definition instruction_keywords :: "string list" where
  "instruction_keywords =
     [''responsibilities'', ''guidelines'', ''process'', ''steps'', ''workflow'']"

text \<open>
  \<open>calculate_quality_score\<close> of \<open>collect_agents.py\<close>. The function assigns to no field
  of the record, so the model returns the score alone.
\<close>

definition frontmatter_points :: "yaml \<Rightarrow> py_error + int" where
  "frontmatter_points y =
     (if truthy y then
        bindE (py_contains ''name'' y) (\<lambda>has_name.
        bindE (py_contains ''description'' y) (\<lambda>has_description.
        bindE (py_contains ''tools'' y) (\<lambda>has_tools.
          Inr (10 + (if has_name then 5 else 0) + (if has_description then 5 else 0)
                 + (if has_tools then 5 else 0)))))
      else Inr 0)"

text \<open>One round of the keyword loop: \<open>if keyword.lower() in agent.content.lower(): score += 2\<close>.\<close>

definition keyword_points :: "string \<Rightarrow> string \<Rightarrow> int" where
  "keyword_points c keyword = (if isin (lower keyword) (lower c) then 2 else 0)"

definition collector_content_points :: "string \<Rightarrow> int" where
  "collector_content_points c =
     (let content_length = length c in
      (if content_length > 500 then 5 else 0)
      + (if content_length > 1000 then 5 else 0)
      + (if content_length > 2000 then 5 else 0)
      + (if isin ''## '' c then 3 else 0)
      + (if isin ''### '' c then 2 else 0)
      + (if isin ''```'' c then 5 else 0)
      + sum_list (map (keyword_points c) instruction_keywords))"

definition collector_calculate_quality_score :: "collected_agent \<Rightarrow> py_error + int" where
  "collector_calculate_quality_score a =
     bindE (frontmatter_points (yaml_frontmatter a)) (\<lambda>fp.
       Inr (fp + collector_content_points (c_content a)))"

section \<open>Classification of a record\<close>

text \<open>\<open>categorize_agent\<close> of \<open>collect_agents.py\<close>, and the accumulated score of a table row for a record.\<close>

definition categorize_agent :: "collected_agent \<Rightarrow> string \<times> string" where
  "categorize_agent a =
     (let name_lower = lower (c_name a);
          desc_lower = lower (description a);
          content_lower = lower (take 1000 (c_content a));
          (best_category, best_subcategory, best_score) =
            scan_categories name_lower desc_lower content_lower categories
              (''specialized'', ''general'', 0)
      in (best_category, best_subcategory))"

definition row_score :: "collected_agent \<Rightarrow> string \<times> string \<times> string list \<Rightarrow> int" where
  "row_score a row =
     subcategory_score (lower (c_name a)) (lower (description a))
       (lower (take 1000 (c_content a))) (snd (snd row))"

text \<open>The same scan over the table of rows, the two loops taken as one.\<close>

fun scan_rows ::
  "string \<Rightarrow> string \<Rightarrow> string \<Rightarrow> (string \<times> string \<times> string list) list
   \<Rightarrow> string \<times> string \<times> int \<Rightarrow> string \<times> string \<times> int" where
  "scan_rows n d c [] best = best"
| "scan_rows n d c ((cat, sub, keywords) # rest) (bc, bs, best_score) =
     scan_rows n d c rest
       (if subcategory_score n d c keywords > best_score
        then (cat, sub, subcategory_score n d c keywords) else (bc, bs, best_score))"

section \<open>Group resolver\<close>

text \<open>
  \<open>xs.sort(key=key, reverse=True)\<close>. Python reverses the list, sorts it stably in
  ascending order of the key and reverses the result, so that records with equal keys keep
  their order.
\<close>

definition py_sort_desc :: "('a \<Rightarrow> int) \<Rightarrow> 'a list \<Rightarrow> 'a list" where
  "py_sort_desc key xs = rev (sort_key key (rev xs))"

text \<open>
  The choice in \<open>select_best_from_groups\<close> of \<open>intelligent_dedupe.py\<close>: sort the group,
  \<open>best = agents[0]\<close>, the rejected ones are \<open>agents[1:]\<close>.
\<close>

definition select_best :: "agent list \<Rightarrow> py_error + (agent \<times> agent list)" where
  "select_best agents =
     (case py_sort_desc quality_score agents of
        [] \<Rightarrow> Inl IndexError
      | best # rejected \<Rightarrow> Inr (best, rejected))"

text \<open>
  The choice in the second loop of \<open>find_duplicates\<close> of \<open>collect_agents.py\<close>: a group
  of more than one record is sorted and gives its first record and the duplicates
  \<open>group_agents[1:]\<close>; any other group gives \<open>group_agents[0]\<close>.
\<close>

definition collector_select ::
  "collected_agent list \<Rightarrow> py_error + (collected_agent \<times> collected_agent list)" where
  "collector_select group_agents =
     (if length group_agents > 1 then
        (case py_sort_desc c_quality_score group_agents of
           [] \<Rightarrow> Inl IndexError
         | best # rest \<Rightarrow> Inr (best, rest))
      else
        (case group_agents of
           [] \<Rightarrow> Inl IndexError
         | best # rest \<Rightarrow> Inr (best, [])))"

section \<open>Sequence similarity\<close>

text \<open>
  \<open>difflib.SequenceMatcher(None, a, b)\<close> of the Python standard library, as the
  scripts call it: no junk function, automatic junk heuristic on. The model follows
  \<open>__chain_b\<close>, \<open>find_longest_match\<close>, \<open>get_matching_blocks\<close> and \<open>ratio\<close> of
  CPython 3.11.
\<close>

text \<open>
  \<open>__chain_b\<close>: \<open>b2j[elt]\<close> lists the indices of \<open>elt\<close> in \<open>b\<close>, in ascending order.
  When \<open>b\<close> has 200 elements or more, an element that occurs more than \<open>n // 100 + 1\<close>
  times is popular and loses its entry; a missing entry reads as the empty list.
\<close>

definition indices_of :: "string \<Rightarrow> char \<Rightarrow> nat list" where
  "indices_of b elt = filter (\<lambda>i. b ! i = elt) [0..<length b]"

definition b2j :: "string \<Rightarrow> char \<Rightarrow> nat list" where
  "b2j b elt =
     (let idxs = indices_of b elt; n = length b in
      if n \<ge> 200 \<and> length idxs > n div 100 + 1 then [] else idxs)"

text \<open>A match \<open>(i, j, k)\<close>: \<open>a[i:i+k] == b[j:j+k]\<close>.\<close>

type_synonym match = "nat \<times> nat \<times> nat"

text \<open>
  The inner loop of \<open>find_longest_match\<close> over the indices \<open>j\<close> of \<open>a[i]\<close> in \<open>b\<close>:
  \<open>continue\<close> below \<open>blo\<close>, \<open>break\<close> from \<open>bhi\<close> on, otherwise
  \<open>k = newj2len[j] = j2len.get(j-1, 0) + 1\<close> and the best match is replaced when \<open>k\<close>
  is larger. The key \<open>-1\<close> is never in the dict.
\<close>

fun flm_inner ::
  "nat \<Rightarrow> nat \<Rightarrow> nat \<Rightarrow> (nat \<rightharpoonup> nat) \<Rightarrow> nat list \<Rightarrow> (nat \<rightharpoonup> nat) \<times> match
   \<Rightarrow> (nat \<rightharpoonup> nat) \<times> match" where
  "flm_inner i blo bhi j2len [] st = st"
| "flm_inner i blo bhi j2len (j # js) (newj2len, besti, bestj, bestsize) =
     (if j < blo then flm_inner i blo bhi j2len js (newj2len, besti, bestj, bestsize)
      else if j \<ge> bhi then (newj2len, besti, bestj, bestsize)
      else
        (let k = (if j = 0 then 0 else case j2len (j - 1) of None \<Rightarrow> 0 | Some v \<Rightarrow> v) + 1
         in flm_inner i blo bhi j2len js
              (newj2len(j \<mapsto> k),
               if k > bestsize then (i + 1 - k, j + 1 - k, k) else (besti, bestj, bestsize))))"

text \<open>The loop \<open>for i in range(alo, ahi)\<close>, which starts each round with an empty \<open>newj2len\<close>.\<close>

function flm_outer ::
  "string \<Rightarrow> string \<Rightarrow> nat \<Rightarrow> nat \<Rightarrow> nat \<Rightarrow> nat \<Rightarrow> (nat \<rightharpoonup> nat) \<times> match
   \<Rightarrow> (nat \<rightharpoonup> nat) \<times> match" where
  "flm_outer a b blo bhi i ahi (j2len, best) =
     (if i < ahi then
        flm_outer a b blo bhi (Suc i) ahi
          (flm_inner i blo bhi j2len (b2j b (a ! i)) (Map.empty, best))
      else (j2len, best))"
  by pat_completeness auto
termination
  by (relation "measure (\<lambda>(a, b, blo, bhi, i, ahi, st). ahi - i)") auto

text \<open>
  The two loops that extend the match to the left and to the right as long as the
  neighbouring elements are equal. The junk set is empty, so the test
  \<open>not isbjunk(...)\<close> is always true, and the two loops that follow in the source, which
  take junk elements only, never run.
\<close>

function extend_left :: "string \<Rightarrow> string \<Rightarrow> nat \<Rightarrow> nat \<Rightarrow> match \<Rightarrow> match" where
  "extend_left a b alo blo (besti, bestj, bestsize) =
     (if besti > alo \<and> bestj > blo \<and> a ! (besti - 1) = b ! (bestj - 1)
      then extend_left a b alo blo (besti - 1, bestj - 1, bestsize + 1)
      else (besti, bestj, bestsize))"
  by pat_completeness auto
termination
  by (relation "measure (\<lambda>(a, b, alo, blo, besti, bestj, bestsize). besti)") auto

function extend_right :: "string \<Rightarrow> string \<Rightarrow> nat \<Rightarrow> nat \<Rightarrow> match \<Rightarrow> match" where
  "extend_right a b ahi bhi (besti, bestj, bestsize) =
     (if besti + bestsize < ahi \<and> bestj + bestsize < bhi
         \<and> a ! (besti + bestsize) = b ! (bestj + bestsize)
      then extend_right a b ahi bhi (besti, bestj, bestsize + 1)
      else (besti, bestj, bestsize))"
  by pat_completeness auto
termination
  by (relation "measure (\<lambda>(a, b, ahi, bhi, besti, bestj, bestsize). ahi - (besti + bestsize))")
    auto

definition find_longest_match :: "string \<Rightarrow> string \<Rightarrow> nat \<Rightarrow> nat \<Rightarrow> nat \<Rightarrow> nat \<Rightarrow> match" where
  "find_longest_match a b alo ahi blo bhi =
     extend_right a b ahi bhi
       (extend_left a b alo blo
          (snd (flm_outer a b blo bhi alo ahi (Map.empty, alo, blo, 0))))"

declare flm_outer.simps [simp del] extend_left.simps [simp del] extend_right.simps [simp del]

text \<open>
  A match of positive size lies inside the window of \<open>a\<close>: the runs counted in
  \<open>j2len\<close> at round \<open>i\<close> are no longer than \<open>i - alo\<close>. This is what makes the loop of
  \<open>get_matching_blocks\<close> terminate.
\<close>

definition run_bounded :: "nat \<Rightarrow> nat \<Rightarrow> (nat \<rightharpoonup> nat) \<Rightarrow> bool" where
  "run_bounded alo i m = (\<forall>j v. m j = Some v \<longrightarrow> v \<le> i - alo)"

definition match_within :: "nat \<Rightarrow> nat \<Rightarrow> match \<Rightarrow> bool" where
  "match_within alo hi m = (case m of (bi, bj, bs) \<Rightarrow> alo \<le> bi \<and> bi + bs \<le> hi)"

lemma flm_inner_inv:
  "alo \<le> i \<Longrightarrow> run_bounded alo i j2len \<Longrightarrow>
   run_bounded alo (Suc i) (fst st) \<Longrightarrow> match_within alo (Suc i) (snd st) \<Longrightarrow>
   run_bounded alo (Suc i) (fst (flm_inner i blo bhi j2len js st))
   \<and> match_within alo (Suc i) (snd (flm_inner i blo bhi j2len js st))"
proof (induction i blo bhi j2len js st rule: flm_inner.induct)
  case (1 i blo bhi j2len st)
  then show ?case by simp
next
  case (2 i blo bhi j2len j js newj2len besti bestj bestsize)
  define k where
    "k = (if j = 0 then 0 else case j2len (j - 1) of None \<Rightarrow> 0 | Some v \<Rightarrow> v) + 1"
  have "(if j = 0 then 0 else case j2len (j - 1) of None \<Rightarrow> 0 | Some v \<Rightarrow> v) \<le> i - alo"
    using "2.prems"(2) unfolding run_bounded_def by (cases "j2len (j - 1)") auto
  then have k_le: "k \<le> Suc i - alo"
    using "2.prems"(1) unfolding k_def by arith
  show ?case
  proof (cases "j < blo")
    case True
    with 2 show ?thesis by simp
  next
    case low: False
    show ?thesis
    proof (cases "j \<ge> bhi")
      case True
      with low "2.prems" show ?thesis by simp
    next
      case high: False
      let ?best = "if k > bestsize then (i + 1 - k, j + 1 - k, k) else (besti, bestj, bestsize)"
      have unfold: "flm_inner i blo bhi j2len (j # js) (newj2len, besti, bestj, bestsize)
                    = flm_inner i blo bhi j2len js (newj2len(j \<mapsto> k), ?best)"
        using low high by (simp add: k_def Let_def)
      have m: "run_bounded alo (Suc i) (fst (newj2len(j \<mapsto> k), ?best))"
        using "2.prems"(3) k_le by (auto simp: run_bounded_def)
      have b: "match_within alo (Suc i) (snd (newj2len(j \<mapsto> k), ?best))"
        using "2.prems"(4) k_le "2.prems"(1) by (auto simp: match_within_def)
      from "2.IH"(2) [OF low high k_def "2.prems"(1,2) m b]
      show ?thesis by (simp only: unfold)
    qed
  qed
qed

lemma flm_outer_inv:
  "alo \<le> i \<Longrightarrow> i \<le> ahi \<Longrightarrow> run_bounded alo i (fst st) \<Longrightarrow> match_within alo i (snd st) \<Longrightarrow>
   match_within alo ahi (snd (flm_outer a b blo bhi i ahi st))"
proof (induction a b blo bhi i ahi st rule: flm_outer.induct)
  case (1 a b blo bhi i ahi j2len best)
  show ?case
  proof (cases "i < ahi")
    case False
    with "1.prems" show ?thesis by (simp add: flm_outer.simps)
  next
    case True
    let ?st = "flm_inner i blo bhi j2len (b2j b (a ! i)) (Map.empty, best)"
    have "run_bounded alo (Suc i) (fst (Map.empty, best))"
      by (simp add: run_bounded_def)
    moreover have "match_within alo (Suc i) (snd (Map.empty, best))"
      using "1.prems"(4) by (auto simp: match_within_def)
    ultimately have inv: "run_bounded alo (Suc i) (fst ?st)" "match_within alo (Suc i) (snd ?st)"
      using flm_inner_inv [OF "1.prems"(1), of j2len "(Map.empty, best)" blo bhi "b2j b (a ! i)"]
        "1.prems"(3) by simp_all
    have "alo \<le> Suc i" "Suc i \<le> ahi" using "1.prems"(1) True by simp_all
    from "1.IH" [OF True this inv]
    have "match_within alo ahi (snd (flm_outer a b blo bhi (Suc i) ahi ?st))" .
    moreover have "flm_outer a b blo bhi i ahi (j2len, best)
                   = flm_outer a b blo bhi (Suc i) ahi ?st"
      using True by (subst flm_outer.simps) simp
    ultimately show ?thesis by simp
  qed
qed

lemma extend_left_inv:
  "alo \<le> fst m \<Longrightarrow>
   alo \<le> fst (extend_left a b alo blo m)
   \<and> fst (extend_left a b alo blo m) + snd (snd (extend_left a b alo blo m))
     = fst m + snd (snd m)"
proof (induction a b alo blo m rule: extend_left.induct)
  case (1 a b alo blo besti bestj bestsize)
  show ?case
  proof (cases "besti > alo \<and> bestj > blo \<and> a ! (besti - 1) = b ! (bestj - 1)")
    case True
    then have unfold: "extend_left a b alo blo (besti, bestj, bestsize)
                 = extend_left a b alo blo (besti - 1, bestj - 1, bestsize + 1)"
      by (subst extend_left.simps) simp
    from True have "alo \<le> fst (besti - 1, bestj - 1, bestsize + 1)" by auto
    from "1.IH" [OF True this] True show ?thesis
      by (simp only: unfold) simp
  next
    case False
    have "extend_left a b alo blo (besti, bestj, bestsize) = (besti, bestj, bestsize)"
      by (subst extend_left.simps) (simp only: False if_False)
    with "1.prems" show ?thesis by simp
  qed
qed

lemma extend_right_inv:
  "fst (extend_right a b ahi bhi m) = fst m
   \<and> (snd (snd (extend_right a b ahi bhi m)) = snd (snd m)
      \<or> fst m + snd (snd (extend_right a b ahi bhi m)) \<le> ahi)"
proof (induction a b ahi bhi m rule: extend_right.induct)
  case (1 a b ahi bhi besti bestj bestsize)
  show ?case
  proof (cases "besti + bestsize < ahi \<and> bestj + bestsize < bhi
                \<and> a ! (besti + bestsize) = b ! (bestj + bestsize)")
    case True
    then have unfold: "extend_right a b ahi bhi (besti, bestj, bestsize)
                 = extend_right a b ahi bhi (besti, bestj, bestsize + 1)"
      by (subst extend_right.simps) simp
    from "1.IH" [OF True] True show ?thesis
      by (simp only: unfold) auto
  next
    case False
    have "extend_right a b ahi bhi (besti, bestj, bestsize) = (besti, bestj, bestsize)"
      by (subst extend_right.simps) (simp only: False if_False)
    then show ?thesis by simp
  qed
qed

lemma find_longest_match_bounds:
  assumes "find_longest_match a b alo ahi blo bhi = (i, j, k)" and "k \<noteq> 0"
  shows "alo \<le> i \<and> i + k \<le> ahi"
proof -
  define m0 where "m0 = snd (flm_outer a b blo bhi alo ahi (Map.empty, alo, blo, 0))"
  define m1 where "m1 = extend_left a b alo blo m0"
  have res: "extend_right a b ahi bhi m1 = (i, j, k)"
    using assms(1) by (simp add: find_longest_match_def m0_def m1_def)
  show ?thesis
  proof (cases "alo \<le> ahi")
    case True
    have "match_within alo ahi m0"
      unfolding m0_def
      by (rule flm_outer_inv [OF _ True]) (simp_all add: run_bounded_def match_within_def)
    then have m0: "alo \<le> fst m0" "fst m0 + snd (snd m0) \<le> ahi"
      by (auto simp: match_within_def)
    from extend_left_inv [OF m0(1), of a b blo] m0(2)
    have m1: "alo \<le> fst m1" "fst m1 + snd (snd m1) \<le> ahi"
      by (simp_all add: m1_def)
    from extend_right_inv [of a b ahi bhi m1] res m1 show ?thesis by auto
  next
    case False
    then have "m0 = (alo, blo, 0)"
      unfolding m0_def by (subst flm_outer.simps) simp
    then have "m1 = (alo, blo, 0)"
      by (simp add: m1_def extend_left.simps)
    with res False have "k = 0"
      by (simp add: extend_right.simps)
    with assms(2) show ?thesis by simp
  qed
qed

text \<open>
  The loop of \<open>get_matching_blocks\<close>. The queue is a list that is appended to and popped
  at its end; here its end is the head of the list.
\<close>

function matching_blocks_loop ::
  "string \<Rightarrow> string \<Rightarrow> (nat \<times> nat \<times> nat \<times> nat) list \<Rightarrow> match list \<Rightarrow> match list" where
  "matching_blocks_loop a b [] matching_blocks = matching_blocks"
| "matching_blocks_loop a b ((alo, ahi, blo, bhi) # queue) matching_blocks =
     (case find_longest_match a b alo ahi blo bhi of
        (i, j, k) \<Rightarrow>
          if k \<noteq> 0 then
            matching_blocks_loop a b
              ((if i + k < ahi \<and> j + k < bhi then [(i + k, ahi, j + k, bhi)] else [])
               @ (if alo < i \<and> blo < j then [(alo, i, blo, j)] else [])
               @ queue)
              (matching_blocks @ [(i, j, k)])
          else matching_blocks_loop a b queue matching_blocks)"
  by pat_completeness auto
termination
proof (relation "measure (\<lambda>(a, b, queue, blocks).
                   sum_list (map (\<lambda>(alo, ahi, blo, bhi). 2 * (ahi - alo) + 1) queue))",
    goal_cases)
  case 1
  then show ?case by simp
next
  case (2 a b alo ahi blo bhi queue matching_blocks i y j k)
  then have "find_longest_match a b alo ahi blo bhi = (i, j, k)" and "k \<noteq> 0" by simp_all
  from find_longest_match_bounds [OF this] \<open>k \<noteq> 0\<close> show ?case by auto
next
  case 3
  then show ?case by simp
qed

text \<open>The loop that merges adjacent blocks, starting from the dummy block \<open>(0, 0, 0)\<close>.\<close>

fun collapse :: "match list \<Rightarrow> match \<Rightarrow> match list \<Rightarrow> match list" where
  "collapse [] (i1, j1, k1) non_adjacent =
     (if k1 \<noteq> 0 then non_adjacent @ [(i1, j1, k1)] else non_adjacent)"
| "collapse ((i2, j2, k2) # rest) (i1, j1, k1) non_adjacent =
     (if i1 + k1 = i2 \<and> j1 + k1 = j2 then collapse rest (i1, j1, k1 + k2) non_adjacent
      else collapse rest (i2, j2, k2)
             (if k1 \<noteq> 0 then non_adjacent @ [(i1, j1, k1)] else non_adjacent))"

text \<open>The blocks are sorted as tuples and end with the sentinel \<open>(la, lb, 0)\<close>.\<close>

definition get_matching_blocks :: "string \<Rightarrow> string \<Rightarrow> match list" where
  "get_matching_blocks a b =
     (let la = length a; lb = length b;
          matching_blocks = sort (matching_blocks_loop a b [(0, la, 0, lb)] [])
      in collapse matching_blocks (0, 0, 0) [] @ [(la, lb, 0)])"

text \<open>
  \<open>ratio\<close>: \<open>2.0 * matches / length\<close>, and 1.0 for two empty sequences. The float is
  modelled by the real number. The scripts only compare a ratio with 0.7 or 0.8: the float
  quotient is the double nearest to the real one, so for sequences of fewer than
  \<open>2 ^ 50\<close> elements it exceeds the double 0.7 (or 0.8) exactly when the real quotient
  exceeds 7/10 (or 8/10).
\<close>

definition block_size :: "match \<Rightarrow> nat" where
  "block_size m = snd (snd m)"

definition matches_total :: "string \<Rightarrow> string \<Rightarrow> nat" where
  "matches_total a b = sum_list (map block_size (get_matching_blocks a b))"

definition ratio :: "string \<Rightarrow> string \<Rightarrow> real" where
  "ratio a b =
     (let matches = matches_total a b; length = length a + length b in
      if length \<noteq> 0 then 2 * real matches / real length else 1)"

declare matching_blocks_loop.simps [simp del]

section \<open>Name normalizer\<close>

text \<open>\<open>re.sub(r'^\d+[-_]', '', name)\<close>: leading digits and one separator after them go.\<close>

definition is_digit :: "char \<Rightarrow> bool" where
  "is_digit c = (48 \<le> (of_char c :: nat) \<and> (of_char c :: nat) \<le> 57)"

definition strip_number_prefix :: "string \<Rightarrow> string" where
  "strip_number_prefix s =
     (case dropWhile is_digit s of
        [] \<Rightarrow> s
      | c # cs \<Rightarrow>
          if takeWhile is_digit s \<noteq> [] \<and> (c = CHR ''-'' \<or> c = CHR ''_'') then cs else s)"

text \<open>\<open>re.sub(r'[-_]', ' ', clean)\<close>\<close>

definition separator_to_space :: "char \<Rightarrow> char" where
  "separator_to_space c = (if c = CHR ''-'' \<or> c = CHR ''_'' then CHR '' '' else c)"

text \<open>
  \<open>duplicate_patterns\<close>, flattened in order. Each of the first thirteen patterns is
  \<open>(.+)[-_]?\<close> followed by one of the listed endings and \<open>$\<close>. The last four patterns
  have no group: a match returns \<open>clean\<close>, which is also what the function returns when
  nothing matches, so they are left out.
\<close>

definition suffix_rules :: "string list list" where
  "suffix_rules =
     [[''pro''], [''expert''], [''developer''], [''engineer''], [''specialist''],
      [''architect''], [''architecture''],
      [''test'', ''tester'', ''testing''], [''qa''],
      [''debug'', ''debugger''], [''troubleshoot'', ''troubleshooter''],
      [''optimize'', ''optimizer''], [''performance'']]"

text \<open>What may follow the group: an ending, with or without a separator before it.\<close>

definition with_separators :: "string \<Rightarrow> string list" where
  "with_separators ending = [ending, CHR ''-'' # ending, CHR ''_'' # ending]"

definition rule_rests :: "string list \<Rightarrow> string list" where
  "rule_rests endings = concat (map with_separators endings)"

text \<open>
  \<open>re.match\<close> of one pattern: the greedy group \<open>(.+)\<close> takes the longest non-empty
  prefix without a line feed that leaves one of the rests. The name has been stripped, so
  \<open>$\<close> can only match at its very end.
\<close>

fun greedy_prefix :: "string list \<Rightarrow> string \<Rightarrow> nat \<Rightarrow> string option" where
  "greedy_prefix rests s 0 = None"
| "greedy_prefix rests s (Suc n) =
     (if drop (Suc n) s \<in> set rests \<and> CHR 0x0A \<notin> set (take (Suc n) s)
      then Some (take (Suc n) s)
      else greedy_prefix rests s n)"

definition match_rule :: "string list \<Rightarrow> string \<Rightarrow> string option" where
  "match_rule endings s = greedy_prefix (rule_rests endings) s (length s)"

text \<open>The first pattern that matches, in order, gives the group.\<close>

fun first_rule :: "string list list \<Rightarrow> string \<Rightarrow> string option" where
  "first_rule [] s = None"
| "first_rule (endings # rules) s =
     (case match_rule endings s of
        Some stem \<Rightarrow> Some stem
      | None \<Rightarrow> first_rule rules s)"

definition get_semantic_key :: "string \<Rightarrow> string" where
  "get_semantic_key n =
     (let clean = py_strip (lower (map separator_to_space (strip_number_prefix n))) in
      case first_rule suffix_rules clean of
        Some stem \<Rightarrow> py_strip stem
      | None \<Rightarrow> clean)"

section \<open>Similarity engine\<close>

text \<open>\<open>re.sub(r'[^a-z0-9]', '', name.lower())\<close>\<close>

definition is_lower_alnum :: "char \<Rightarrow> bool" where
  "is_lower_alnum c =
     (let n = (of_char c :: nat) in (97 \<le> n \<and> n \<le> 122) \<or> (48 \<le> n \<and> n \<le> 57))"

definition clean_name :: "string \<Rightarrow> string" where
  "clean_name n = filter is_lower_alnum (lower n)"

definition name_similarity :: "string \<Rightarrow> string \<Rightarrow> real" where
  "name_similarity name1 name2 =
     (let clean1 = clean_name name1; clean2 = clean_name name2 in
      if isin clean1 clean2 \<or> isin clean2 clean1 then 9 / 10
      else ratio clean1 clean2)"

definition content_similarity :: "string \<Rightarrow> string \<Rightarrow> real" where
  "content_similarity content1 content2 =
     (let snippet1 = lower (take 500 content1); snippet2 = lower (take 500 content2) in
      ratio snippet1 snippet2)"

text \<open>
  \<open>re.sub(r'[-_](pro|expert|developer|engineer|specialist)$', '', name)\<close>: the leftmost
  separator that is followed by one of the five endings and the end of the name is cut
  with its ending; \<open>$\<close> also matches before a line feed that ends the name, which stays.
\<close>

definition role_suffixes :: "string list" where
  "role_suffixes = [''pro'', ''expert'', ''developer'', ''engineer'', ''specialist'']"

definition before_line_feed :: "string \<Rightarrow> string" where
  "before_line_feed ending = ending @ [CHR 0x0A]"

fun strip_role_suffix :: "string \<Rightarrow> string" where
  "strip_role_suffix [] = []"
| "strip_role_suffix (c # cs) =
     (if (c = CHR ''-'' \<or> c = CHR ''_'') \<and> cs \<in> set role_suffixes then []
      else if (c = CHR ''-'' \<or> c = CHR ''_'') \<and> cs \<in> set (map before_line_feed role_suffixes)
      then [CHR 0x0A]
      else c # strip_role_suffix cs)"

text \<open>
  The test inside the inner loop of \<open>find_duplicates\<close> of \<open>intelligent_dedupe.py\<close>, for
  the seed \<open>agent1\<close> and the candidate \<open>agent2\<close>: the \<open>if\<close>/\<open>elif\<close> chain of the first
  three signals, then the fourth signal on its own.
\<close>

definition is_duplicate :: "agent \<Rightarrow> agent \<Rightarrow> bool" where
  "is_duplicate agent1 agent2 =
     (let key1 = get_semantic_key (name agent1);
          key2 = get_semantic_key (name agent2);
          by_chain =
            (if key1 = key2 then True
             else if name_similarity (name agent1) (name agent2) > 7 / 10 then True
             else if content_similarity (content agent1) (content agent2) > 8 / 10 then True
             else False);
          name1_clean = strip_role_suffix (lower (name agent1));
          name2_clean = strip_role_suffix (lower (name agent2))
      in if name1_clean = name2_clean \<and> name1_clean \<noteq> [] then True else by_chain)"

section \<open>Duplicate grouper\<close>

text \<open>
  The inner loop of \<open>find_duplicates\<close> over \<open>all_agents[i+1:]\<close>, carrying
  \<open>current_group\<close> and \<open>processed\<close>.
\<close>

fun scan_candidates :: "agent \<Rightarrow> agent list \<Rightarrow> agent list \<times> path set \<Rightarrow> agent list \<times> path set" where
  "scan_candidates agent1 [] st = st"
| "scan_candidates agent1 (agent2 # rest) (current_group, processed) =
     (if path agent2 \<in> processed then scan_candidates agent1 rest (current_group, processed)
      else if is_duplicate agent1 agent2
      then scan_candidates agent1 rest (current_group @ [agent2], insert (path agent2) processed)
      else scan_candidates agent1 rest (current_group, processed))"

text \<open>
  The outer loop over the records from position \<open>i\<close> on, carrying \<open>processed\<close> and the
  groups saved so far; a group is saved if it has more than one record.
\<close>

fun find_groups :: "agent list \<Rightarrow> path set \<times> agent list list \<Rightarrow> path set \<times> agent list list" where
  "find_groups [] st = st"
| "find_groups (agent1 # rest) (processed, groups) =
     (if path agent1 \<in> processed then find_groups rest (processed, groups)
      else
        (case scan_candidates agent1 rest ([agent1], insert (path agent1) processed) of
           (current_group, processed') \<Rightarrow>
             find_groups rest
               (processed',
                if length current_group > 1 then groups @ [current_group] else groups)))"

text \<open>\<open>find_duplicates\<close>: the value left in \<open>duplicate_groups\<close>, in the order of the group ids.\<close>

definition find_duplicates :: "agent list \<Rightarrow> agent list list" where
  "find_duplicates all_agents = snd (find_groups all_agents ({}, []))"

text \<open>
  \<open>select_best_from_groups\<close>. An entry of the decision log holds the group's key, the
  name and score of the selected record and the names of the rejected ones; the
  \<open>reason\<close> text, which repeats the score, is left out.
\<close>

record decision =
  decision_group :: string
  decision_selected :: string
  decision_score :: int
  decision_rejected :: "string list"

definition in_groups :: "agent list list \<Rightarrow> path set" where
  "in_groups groups = path ` set (concat groups)"

definition ungrouped :: "agent list \<Rightarrow> agent list list \<Rightarrow> agent list" where
  "ungrouped all_agents groups = filter (\<lambda>a. path a \<notin> in_groups groups) all_agents"

fun select_from_groups ::
  "agent list list \<Rightarrow> agent list \<times> decision list \<Rightarrow> py_error + (agent list \<times> decision list)" where
  "select_from_groups [] st = Inr st"
| "select_from_groups (agents # groups) (unique_agents, decision_log) =
     bindE (select_best agents) (\<lambda>(best, others).
       select_from_groups groups
         (unique_agents @ [best],
          decision_log @
            [\<lparr>decision_group = get_semantic_key (name best),
              decision_selected = name best, decision_score = quality_score best,
              decision_rejected = map name others\<rparr>]))"

definition select_best_from_groups ::
  "agent list \<Rightarrow> agent list list \<Rightarrow> py_error + (agent list \<times> decision list)" where
  "select_best_from_groups all_agents groups =
     select_from_groups groups (ungrouped all_agents groups, [])"

text \<open>
  The grouping in the specification's words: the first record not yet in a group seeds
  a group; every remaining record that is a duplicate of the seed joins it; the others
  go on to the next round.
\<close>

fun seed_groups :: "('a \<Rightarrow> 'a \<Rightarrow> bool) \<Rightarrow> 'a list \<Rightarrow> 'a list list" where
  "seed_groups dup [] = []"
| "seed_groups dup (seed # rest) =
     (seed # filter (dup seed) rest) # seed_groups dup (filter (\<lambda>a. \<not> dup seed a) rest)"

section \<open>Grouping loop of the collector\<close>

text \<open>
  The first loop of \<open>find_duplicates\<close> of \<open>collect_agents.py\<close>. The test
  \<open>similarity_score(agent, group_agents[0]) > 0.8\<close> compares a weighted float average of
  three ratios with 0.8; it is the parameter \<open>similar\<close> here, applied to the record and
  to the first record of the group. A record joins the first group whose test holds; when
  none does, it opens a new group at the end.
\<close>

fun place_agent ::
  "(collected_agent \<Rightarrow> collected_agent \<Rightarrow> bool) \<Rightarrow> collected_agent
   \<Rightarrow> collected_agent list list \<Rightarrow> py_error + collected_agent list list" where
  "place_agent similar agent [] = Inr [[agent]]"
| "place_agent similar agent (group_agents # groups) =
     (case group_agents of
        [] \<Rightarrow> Inl IndexError
      | first # others \<Rightarrow>
          if similar agent first then Inr ((group_agents @ [agent]) # groups)
          else bindE (place_agent similar agent groups) (\<lambda>placed. Inr (group_agents # placed)))"

fun place_agents ::
  "(collected_agent \<Rightarrow> collected_agent \<Rightarrow> bool) \<Rightarrow> collected_agent list
   \<Rightarrow> collected_agent list list \<Rightarrow> py_error + collected_agent list list" where
  "place_agents similar [] groups = Inr groups"
| "place_agents similar (agent # rest) groups =
     bindE (place_agent similar agent groups) (place_agents similar rest)"

definition collector_find_groups ::
  "(collected_agent \<Rightarrow> collected_agent \<Rightarrow> bool) \<Rightarrow> collected_agent list
   \<Rightarrow> py_error + collected_agent list list" where
  "collector_find_groups similar all_agents = place_agents similar all_agents []"

section \<open>Loader of the deduplicator\<close>

text \<open>
  \<open>Path.name\<close> is the last component, and \<open>Path.stem\<close> is the name up to its last dot
  when that dot is neither the first nor the last character of the name.
\<close>

definition path_name :: "path \<Rightarrow> string" where
  "path_name p = (if p = [] then [] else last p)"

definition is_not_dot :: "char \<Rightarrow> bool" where
  "is_not_dot c = (c \<noteq> CHR ''.'')"

definition path_stem :: "path \<Rightarrow> string" where
  "path_stem p =
     (let nm = path_name p; tail = takeWhile is_not_dot (rev nm) in
      if length tail < length nm \<and> 0 < length nm - 1 - length tail \<and> 0 < length tail
      then take (length nm - 1 - length tail) nm
      else nm)"

text \<open>\<open>parts[-3] if len(parts) > 3 else ""\<close>, inside \<open>if len(parts) > 2\<close>.\<close>

definition repo_of_path :: "path \<Rightarrow> string" where
  "repo_of_path p = (if length p > 3 then p ! (length p - 3) else [])"

text \<open>
  One round of the loop of \<open>load_agents\<close> for a file and its text. The record keeps
  the whole text as its content; the body that \<open>extract_yaml\<close> returns is not used. An
  exception of the membership test or of the scorer is caught and the file is skipped.
\<close>

definition load_agent :: "yaml_loader \<Rightarrow> path \<times> string \<Rightarrow> py_error + agent" where
  "load_agent safe_load file =
     (case file of (agent_file, text) \<Rightarrow>
        bindE (extract_yaml safe_load text) (\<lambda>(header, clean_content).
        bindE (py_contains ''tools'' header) (\<lambda>tools_present.
        bindE (calculate_quality_score
                 \<lparr>path = agent_file, name = path_stem agent_file, content = text,
                  yaml_data = header, quality_score = 0,
                  content_length = int (length text), has_yaml = truthy header,
                  has_tools = tools_present, has_structure = isin ''##'' text,
                  has_examples = False, source_repo = repo_of_path agent_file\<rparr>)
          (\<lambda>(s, scored). Inr (scored\<lparr>quality_score := s\<rparr>)))))"

fun load_agents :: "yaml_loader \<Rightarrow> (path \<times> string) list \<Rightarrow> agent list" where
  "load_agents safe_load [] = []"
| "load_agents safe_load (file # files) =
     (case load_agent safe_load file of
        Inl e \<Rightarrow> load_agents safe_load files
      | Inr a \<Rightarrow> a # load_agents safe_load files)"

text \<open>
  The content signal in the specification's words: the ratio of the first 500
  characters of the two bodies, the texts with the header block removed, in lower case,
  exceeds 0.8.
\<close>

definition body_content :: "yaml_loader \<Rightarrow> string \<Rightarrow> string" where
  "body_content safe_load text =
     (case extract_yaml safe_load text of Inr (header, body) \<Rightarrow> body | Inl e \<Rightarrow> text)"

definition body_signal :: "yaml_loader \<Rightarrow> string \<Rightarrow> string \<Rightarrow> bool" where
  "body_signal safe_load text1 text2 =
     (ratio (lower (take 500 (body_content safe_load text1)))
            (lower (take 500 (body_content safe_load text2))) > 8 / 10)"

section \<open>Example records\<close>

text \<open>A document that is one code fence, as the deduplicator loads it.\<close>

definition fenced_agent :: agent where
  "fenced_agent =
     \<lparr>path = [''agents'', ''demo.md''], name = ''demo'', content = ''```'', yaml_data = YMap [],
      quality_score = 0, content_length = 3, has_yaml = False, has_tools = False,
      has_structure = False, has_examples = False, source_repo = []\<rparr>"

text \<open>
  Two descriptions, of 110 and of 24 characters, and the document, the deduplicator's
  record and the collector's record of a header that holds a description only.
\<close>

definition long_description :: string where
  "long_description =
     ''Reviews Python services for correctness, performance and security, and proposes concrete, tested refactorings.''"

definition short_description :: string where
  "short_description = ''Reviews Python services.''"

definition described_document :: "string \<Rightarrow> string" where
  "described_document d =
     ''---'' @ [CHR 0x0A] @ ''description: '' @ d @ [CHR 0x0A] @ ''---'' @ [CHR 0x0A]
       @ ''Review the code.''"

definition described_agent :: "string \<Rightarrow> agent" where
  "described_agent d =
     \<lparr>path = [''agents'', ''reviewer.md''], name = ''reviewer'', content = described_document d,
      yaml_data = YMap [(YStr ''description'', YStr d)], quality_score = 0,
      content_length = int (length (described_document d)), has_yaml = True,
      has_tools = False, has_structure = False, has_examples = False, source_repo = []\<rparr>"

definition described_collected_agent :: "string \<Rightarrow> collected_agent" where
  "described_collected_agent d =
     \<lparr>original_path = ''temp_repo/reviewer.md'', c_source_repo = ''repo'',
      c_name = ''reviewer'', description = d, c_content = described_document d,
      content_hash = [], yaml_frontmatter = YMap [(YStr ''description'', YStr d)],
      tools = YSeq [], category = [], subcategory = [], agent_id = 0,
      c_quality_score = 0\<rparr>"

text \<open>A record of the deduplicator with a name and a score, and nothing else of note.\<close>

definition scored_agent :: "string \<Rightarrow> int \<Rightarrow> agent" where
  "scored_agent n s =
     \<lparr>path = [''agents'', n], name = n, content = [], yaml_data = YMap [],
      quality_score = s, content_length = 0, has_yaml = False, has_tools = False,
      has_structure = False, has_examples = False, source_repo = []\<rparr>"

text \<open>A record of the collector with a name and a description.\<close>

definition named_agent :: "string \<Rightarrow> string \<Rightarrow> collected_agent" where
  "named_agent n d =
     \<lparr>original_path = ''temp_repo/agent.md'', c_source_repo = ''repo'',
      c_name = n, description = d, c_content = ''You are an assistant.'',
      content_hash = [], yaml_frontmatter = YMap [], tools = YSeq [],
      category = [], subcategory = [], agent_id = 0, c_quality_score = 0\<rparr>"

text \<open>
  A record of the deduplicator with a name, a content and a score, and three such
  records.
\<close>

definition sample_agent :: "string \<Rightarrow> string \<Rightarrow> int \<Rightarrow> agent" where
  "sample_agent n c s =
     \<lparr>path = [''agents'', n @ ''.md''], name = n, content = c, yaml_data = YMap [],
      quality_score = s, content_length = int (length c), has_yaml = False,
      has_tools = False, has_structure = False, has_examples = False, source_repo = []\<rparr>"

definition java_pro :: agent where
  "java_pro = sample_agent ''java-pro'' ''x'' 40"

definition java :: agent where
  "java = sample_agent ''java'' ''y'' 55"

definition javascript :: agent where
  "javascript = sample_agent ''javascript'' ''z'' 50"

text \<open>
  Two records whose cleaned names, \<open>appci\<close> and \<open>apicli\<close>, are matched differently
  in the two orders.
\<close>

definition app_ci :: agent where
  "app_ci = sample_agent ''app-ci'' ''x'' 40"

definition api_cli :: agent where
  "api_cli = sample_agent ''api-cli'' ''y'' 50"

text \<open>The letters A to Z and a to z and the digits.\<close>

definition is_ascii_alnum :: "char \<Rightarrow> bool" where
  "is_ascii_alnum c =
     (let n = (of_char c :: nat) in
      (48 \<le> n \<and> n \<le> 57) \<or> (65 \<le> n \<and> n \<le> 90) \<or> (97 \<le> n \<and> n \<le> 122))"

text \<open>
  A document with an empty header block between two delimiter lines, the same document
  without the header block, and the records that the loader builds from them.
\<close>

definition framed_document :: string where
  "framed_document = ''---'' @ [CHR 0x0A] @ ''---'' @ [CHR 0x0A] @ ''hello''"

definition plain_document :: string where
  "plain_document = ''hello''"

definition framed_agent :: agent where
  "framed_agent =
     \<lparr>path = [''agents'', ''framed.md''], name = ''framed'', content = framed_document,
      yaml_data = YMap [], quality_score = 0, content_length = 13, has_yaml = False,
      has_tools = False, has_structure = False, has_examples = False, source_repo = []\<rparr>"

definition plain_agent :: agent where
  "plain_agent =
     \<lparr>path = [''agents'', ''plain.md''], name = ''plain'', content = plain_document,
      yaml_data = YMap [], quality_score = 0, content_length = 5, has_yaml = False,
      has_tools = False, has_structure = False, has_examples = False, source_repo = []\<rparr>"

section \<open>Facts about the string functions\<close>

lemma startswith_Nil: "startswith s []"
  by (simp add: startswith_def)

lemma startswith_Cons: "startswith (c # cs) (p # ps) \<longleftrightarrow> c = p \<and> startswith cs ps"
  by (auto simp: startswith_def)

lemma startswith_Nil_left: "startswith [] (p # ps) = False"
  by (simp add: startswith_def)

lemmas startswith_eval = startswith_Nil startswith_Cons startswith_Nil_left

lemmas lower_eval = lower_def lower_char_def char_of_def bit_Suc_0_iff

lemma isin_split_first: "sep \<noteq> [] \<Longrightarrow> isin sep s \<longleftrightarrow> split_first sep s \<noteq> None"
  by (induction s) (auto split: option.splits)

lemma split_first_prefix:
  "startswith s sep \<Longrightarrow> s \<noteq> [] \<Longrightarrow> split_first sep s = Some ([], drop (length sep) s)"
  by (cases s) auto

lemma startswith_nonempty: "startswith s (c # p) \<Longrightarrow> s \<noteq> []"
  by (auto simp: startswith_def)

lemma py_split_dashes:
  assumes "startswith doc ''---''"
  shows "py_split ''---'' 2 doc =
           (case split_first ''---'' (drop 3 doc) of
              None \<Rightarrow> [[], drop 3 doc]
            | Some (h, t) \<Rightarrow> [[], h, t])"
proof -
  have ne: "doc \<noteq> []"
    using assms by (rule startswith_nonempty)
  have "split_first ''---'' doc = Some ([], drop 3 doc)"
    using split_first_prefix [OF assms ne] by (simp add: eval_nat_numeral)
  then show ?thesis
    by (simp add: numeral_2_eq_2 split: option.splits)
qed

section \<open>The document parser\<close>

lemma extract_yaml_no_header:
  assumes "\<not> (startswith doc ''---'' \<and> isin ''---'' (drop 3 doc))"
  shows "extract_yaml safe_load doc = Inr (YMap [], doc)"
proof (cases "startswith doc ''---''")
  case False
  then show ?thesis by (simp add: extract_yaml_def)
next
  case True
  with assms have "\<not> isin ''---'' (drop 3 doc)"
    by simp
  then have "split_first ''---'' (drop 3 doc) = None"
    using isin_split_first [of "''---''" "drop 3 doc"] by blast
  with True show ?thesis
    by (simp add: extract_yaml_def py_split_dashes)
qed

lemma extract_yaml_header:
  assumes "startswith doc ''---''"
    and "split_first ''---'' (drop 3 doc) = Some (h, t)"
  shows "extract_yaml safe_load doc =
           (case safe_load h of
              Inl e \<Rightarrow> Inr (YMap [], doc)
            | Inr y \<Rightarrow> Inr (if truthy y then y else YMap [], py_strip t))"
  using assms
  by (simp add: extract_yaml_def py_split_dashes extract_yaml_try_def split: sum.splits)

lemma extract_yaml_returns: "\<exists>r. extract_yaml safe_load doc = Inr r"
  by (simp add: extract_yaml_def Let_def split: sum.splits)

lemma lines_of_nonempty: "lines_of s \<noteq> []"
  by (induction s) (auto split: list.splits)

lemma lines_of_cut:
  "lines_of s = l # ls \<Longrightarrow> ls \<noteq> [] \<Longrightarrow> \<exists>s'. s = l @ CHR 0x0A # s' \<and> lines_of s' = ls"
proof (induction s arbitrary: l)
  case Nil
  then show ?case by simp
next
  case (Cons c cs)
  show ?case
  proof (cases "c = CHR 0x0A")
    case True
    with Cons.prems show ?thesis by auto
  next
    case False
    with Cons.prems obtain l' where l': "lines_of cs = l' # ls" and l: "l = c # l'"
      by (auto split: list.splits)
    from Cons.IH [OF l' Cons.prems(2)] l show ?thesis by auto
  qed
qed

lemma isin_append_left: "isin sub s \<Longrightarrow> isin sub (p @ s)"
  by (induction p) auto

lemma isin_prefix: "isin sub (sub @ s)"
proof (cases "sub @ s")
  case Nil
  then show ?thesis by simp
next
  case (Cons a list)
  have "startswith (sub @ s) sub" by (simp add: startswith_def)
  with Cons show ?thesis by simp
qed

lemma isin_line: "l \<in> set (lines_of s) \<Longrightarrow> isin l s"
proof (induction s arbitrary: l)
  case Nil
  then show ?case by simp
next
  case (Cons c cs)
  show ?case
  proof (cases "c = CHR 0x0A")
    case True
    with Cons.prems have "l = [] \<or> l \<in> set (lines_of cs)" by auto
    then show ?thesis
    proof
      assume "l = []"
      then show ?thesis by (simp add: startswith_Nil)
    next
      assume "l \<in> set (lines_of cs)"
      then show ?thesis using Cons.IH by simp
    qed
  next
    case False
    obtain l' ls where ls: "lines_of cs = l' # ls"
      using lines_of_nonempty [of cs] by (cases "lines_of cs") auto
    with False Cons.prems have "l = c # l' \<or> l \<in> set ls" by auto
    then show ?thesis
    proof
      assume l: "l = c # l'"
      show ?thesis
      proof (cases "ls = []")
        case True
        have "cs = l'"
          using ls True
        proof (induction cs arbitrary: l')
          case Nil
          then show ?case by simp
        next
          case (Cons d ds)
          then show ?case
            using lines_of_nonempty [of ds] by (auto split: if_splits list.splits)
        qed
        with l show ?thesis
          using isin_prefix [of "c # cs" "[]"] by simp
      next
        case False
        from lines_of_cut [OF ls False] obtain s' where "cs = l' @ CHR 0x0A # s'" by blast
        with l show ?thesis
          using isin_prefix [of "c # l'" "CHR 0x0A # s'"] by simp
      qed
    next
      assume "l \<in> set ls"
      with ls have "l \<in> set (lines_of cs)" by simp
      then show ?thesis using Cons.IH by simp
    qed
  qed
qed

lemma delimiter_framed_code_condition:
  assumes "delimiter_framed doc"
  shows "startswith doc ''---'' \<and> isin ''---'' (drop 3 doc)"
proof -
  from assms obtain ls where ls: "lines_of doc = ''---'' # ls" and mem: "''---'' \<in> set ls"
    by (auto simp: delimiter_framed_def split: list.splits)
  from mem have "ls \<noteq> []" by auto
  from lines_of_cut [OF ls this] obtain s' where
    c: "doc = ''---'' @ CHR 0x0A # s'" and s': "lines_of s' = ls" by blast
  from mem s' have "isin ''---'' s'" by (simp add: isin_line)
  then have "isin ''---'' (CHR 0x0A # s')" by simp
  with c show ?thesis by (simp add: startswith_def)
qed

text \<open>
  C9 (as stated, refuted). The claim makes the fallback depend on delimiter lines: a
  text that does not begin with a line of exactly three hyphens followed later by
  another such line is returned unchanged with an empty header. The code tests the first
  three characters and the next occurrence of three hyphens anywhere. A text that opens
  with a rule of six hyphens has no delimiter line, yet the parser cuts it: the header
  text is empty, loads as \<open>None\<close>, and the body is what follows the rule, not the
  raw text.
\<close>

theorem extract_yaml_delimiter_line_counterexample:
  "\<not> (\<not> delimiter_framed rule_document
        \<longrightarrow> extract_yaml empty_document_loader rule_document = Inr (YMap [], rule_document))"
  by (simp add: rule_document_def delimiter_framed_def extract_yaml_def startswith_def
      extract_yaml_try_def empty_document_loader_def py_strip_def is_space_def numeral_2_eq_2)

text \<open>
  C9 (amended). For every text and every header loader: unless the text starts with the
  three characters \<open>---\<close> and \<open>---\<close> occurs again after them (anywhere, not only
  as a line of its own), the parser returns the empty header and the raw text unchanged.
  Otherwise the text between these two occurrences goes to the loader; if the loader
  raises, the parser returns the empty header and the raw text; if it loads a value, the
  parser returns that value (the empty header when the value is falsy) and the rest of
  the text, stripped. The parser always returns, so no exception leaves it. Every text framed
  by two delimiter lines meets the code's condition.
\<close>

theorem extract_yaml_fallback:
  "(\<not> (startswith doc ''---'' \<and> isin ''---'' (drop 3 doc))
      \<longrightarrow> extract_yaml safe_load doc = Inr (YMap [], doc))
   \<and> (\<forall>h t. startswith doc ''---'' \<and> split_first ''---'' (drop 3 doc) = Some (h, t)
      \<longrightarrow> extract_yaml safe_load doc =
            (case safe_load h of
               Inl e \<Rightarrow> Inr (YMap [], doc)
             | Inr y \<Rightarrow> Inr (if truthy y then y else YMap [], py_strip t)))
   \<and> (\<exists>r. extract_yaml safe_load doc = Inr r)
   \<and> (delimiter_framed doc
      \<longrightarrow> startswith doc ''---'' \<and> isin ''---'' (drop 3 doc))"
  using extract_yaml_no_header [of doc safe_load]
    extract_yaml_header [of doc _ _ safe_load]
    extract_yaml_returns [of safe_load doc]
    delimiter_framed_code_condition [of doc]
  by blast

theorem extract_yaml_fallback_witness:
  "\<not> (startswith ''Hello'' ''---'' \<and> isin ''---'' (drop 3 ''Hello''))
   \<and> extract_yaml empty_document_loader ''Hello'' = Inr (YMap [], ''Hello'')
   \<and> startswith rule_document ''---''
   \<and> split_first ''---'' (drop 3 rule_document) = Some ([], CHR 0x0A # ''Hello'')
   \<and> extract_yaml empty_document_loader rule_document = Inr (YMap [], ''Hello'')"
  using extract_yaml_fallback [of "''Hello''" empty_document_loader]
    extract_yaml_fallback [of rule_document empty_document_loader]
  by (simp add: rule_document_def startswith_def empty_document_loader_def py_strip_def
      is_space_def)

section \<open>The quality scorers\<close>

lemma bindE_Inr: "bindE m f = Inr r \<longleftrightarrow> (\<exists>x. m = Inr x \<and> f x = Inr r)"
  by (cases m) auto

lemma length_points_nonneg: "0 \<le> length_points n"
  by (simp add: length_points_def)

lemma structure_points_nonneg: "0 \<le> structure_points a"
  by (simp add: structure_points_def Let_def)

lemma specificity_points_nonneg: "0 \<le> specificity_points a"
  by (simp add: specificity_points_def Let_def)

lemma code_points_nonneg: "0 \<le> code_points a"
  by (simp add: code_points_def Let_def)

lemma repo_points_nonneg: "0 \<le> repo_points a"
  by (simp add: repo_points_def)

lemma description_points_nonneg: "description_points y = Inr p \<Longrightarrow> 0 \<le> p"
  by (auto simp: description_points_def bindE_Inr split: if_splits)

lemma tools_points_nonneg: "tools_points y = Inr p \<Longrightarrow> 0 \<le> p"
  by (auto simp: tools_points_def bindE_Inr split: if_splits)

lemma yaml_points_nonneg: "yaml_points a = Inr p \<Longrightarrow> 0 \<le> p"
  by (auto simp: yaml_points_def bindE_Inr split: if_splits
      dest!: description_points_nonneg tools_points_nonneg)

lemma score_parts_has_examples:
  "yaml_points (a\<lparr>has_examples := b\<rparr>) = yaml_points a"
  "structure_points (a\<lparr>has_examples := b\<rparr>) = structure_points a"
  "specificity_points (a\<lparr>has_examples := b\<rparr>) = specificity_points a"
  "code_points (a\<lparr>has_examples := b\<rparr>) = code_points a"
  "repo_points (a\<lparr>has_examples := b\<rparr>) = repo_points a"
  "examples_marker (a\<lparr>has_examples := b\<rparr>) = examples_marker a"
  by (simp_all add: yaml_points_def structure_points_def specificity_points_def
      code_points_def repo_points_def examples_marker_def)

lemma calculate_quality_score_result:
  assumes "calculate_quality_score a = Inr (s, a')"
  shows "0 \<le> s" and "a' = a\<lparr>has_examples := has_examples a \<or> examples_marker a\<rparr>"
    and "calculate_quality_score a' = Inr (s, a')"
proof -
  from assms obtain yp where yp: "yaml_points a = Inr yp"
    and s: "s = length_points (content_length a) + yp + structure_points a
              + specificity_points a + code_points a + repo_points a"
    and a': "a' = (if examples_marker a then a\<lparr>has_examples := True\<rparr> else a)"
    by (auto simp: calculate_quality_score_def bindE_Inr)
  show "0 \<le> s"
    using s yaml_points_nonneg [OF yp] length_points_nonneg [of "content_length a"]
      structure_points_nonneg [of a] specificity_points_nonneg [of a]
      code_points_nonneg [of a] repo_points_nonneg [of a]
    by linarith
  show "a' = a\<lparr>has_examples := has_examples a \<or> examples_marker a\<rparr>"
    using a' by simp
  show "calculate_quality_score a' = Inr (s, a')"
    using yp s a' by (simp add: calculate_quality_score_def score_parts_has_examples)
qed

lemma py_contains_map_of:
  "py_contains k (YMap kvs) = Inr (map_of kvs (YStr k) \<noteq> None)"
  by (simp add: map_of_eq_None_iff)

lemma sized_len: "sized v \<Longrightarrow> \<exists>n. py_len v = Inr n"
  by (cases v) auto

lemma scorable_description_points:
  "scorable_header y \<Longrightarrow> \<exists>p. description_points y = Inr p"
proof (cases y)
  case (YMap kvs)
  assume "scorable_header y"
  with YMap show ?thesis
    unfolding description_points_def py_contains_map_of
    by (cases "map_of kvs (YStr ''description'')") (auto dest!: sized_len)
qed simp_all

lemma scorable_tools_points:
  "scorable_header y \<Longrightarrow> \<exists>p. tools_points y = Inr p"
proof (cases y)
  case (YMap kvs)
  assume "scorable_header y"
  with YMap show ?thesis
    unfolding tools_points_def py_contains_map_of
    by (cases "map_of kvs (YStr ''tools'')") (auto dest!: sized_len)
qed simp_all

lemma scorable_name: "scorable_header y \<Longrightarrow> \<exists>b. py_contains ''name'' y = Inr b"
  by (cases y) simp_all

lemma calculate_quality_score_returns:
  assumes "\<not> has_yaml a \<or> scorable_header (yaml_data a)"
  shows "\<exists>s a'. calculate_quality_score a = Inr (s, a')"
proof -
  have "\<exists>yp. yaml_points a = Inr yp"
  proof (cases "has_yaml a")
    case False
    then show ?thesis by (simp add: yaml_points_def)
  next
    case True
    with assms have sc: "scorable_header (yaml_data a)" by simp
    from scorable_name [OF sc] scorable_description_points [OF sc]
      scorable_tools_points [OF sc]
    show ?thesis using True by (auto simp: yaml_points_def)
  qed
  then show ?thesis by (auto simp: calculate_quality_score_def)
qed

lemma frontmatter_points_nonneg: "frontmatter_points y = Inr p \<Longrightarrow> 0 \<le> p"
  by (auto simp: frontmatter_points_def bindE_Inr split: if_splits)

lemma keyword_points_sum_nonneg: "0 \<le> sum_list (map (keyword_points c) ks)"
  by (induction ks) (auto simp: keyword_points_def)

lemma collector_content_points_nonneg: "0 \<le> collector_content_points c"
  using keyword_points_sum_nonneg [of c instruction_keywords]
  by (simp add: collector_content_points_def Let_def)

lemma collector_score_nonneg:
  "collector_calculate_quality_score c = Inr s \<Longrightarrow> 0 \<le> s"
  using collector_content_points_nonneg [of "c_content c"]
  by (auto simp: collector_calculate_quality_score_def bindE_Inr
      dest!: frontmatter_points_nonneg)

lemma collector_score_returns:
  "yaml_frontmatter c = YMap kvs \<Longrightarrow> \<exists>s. collector_calculate_quality_score c = Inr s"
  by (simp add: collector_calculate_quality_score_def frontmatter_points_def)

text \<open>
  C7 (as stated, refuted). The claim has the scorer write no field of the record. The
  deduplicator's scorer sets \<open>has_examples\<close> when the content has an examples heading
  or a code fence: on a record whose content is one code fence and whose flag is off,
  it returns 5 and leaves the flag on, so the record after scoring is not the record
  before.
\<close>

theorem calculate_quality_score_writes_counterexample:
  "calculate_quality_score fenced_agent = Inr (5, fenced_agent\<lparr>has_examples := True\<rparr>)
   \<and> fenced_agent\<lparr>has_examples := True\<rparr> \<noteq> fenced_agent"
  by (simp add: fenced_agent_def calculate_quality_score_def yaml_points_def
      length_points_def structure_points_def specificity_points_def code_points_def
      repo_points_def repo_in_source_def examples_marker_def quality_repos_def
      lower_eval startswith_eval)

text \<open>
  C7 (amended). Whenever the deduplicator's scorer returns, the score is an integer that
  is at least 0, the record is unchanged except for \<open>has_examples\<close>, which is on
  afterwards exactly if it was on before or the content has an examples heading or a
  code fence, and scoring the record again returns the same score and the same record.
  The scorer returns on every record without a header and on every record whose header
  is a dict with \<open>description\<close> and \<open>tools\<close> values that have a length. The
  collector's scorer assigns to no field; when it returns, its score is at least 0, and it
  returns on every record whose header is a dict.
\<close>

theorem calculate_quality_score_effect:
  "(\<forall>s a'. calculate_quality_score a = Inr (s, a') \<longrightarrow>
      0 \<le> s \<and> a' = a\<lparr>has_examples := has_examples a \<or> examples_marker a\<rparr>
      \<and> calculate_quality_score a' = Inr (s, a'))
   \<and> (\<not> has_yaml a \<or> scorable_header (yaml_data a) \<longrightarrow>
        (\<exists>s a'. calculate_quality_score a = Inr (s, a')))
   \<and> (\<forall>s. collector_calculate_quality_score c = Inr s \<longrightarrow> 0 \<le> s)
   \<and> (\<forall>kvs. yaml_frontmatter c = YMap kvs \<longrightarrow>
        (\<exists>s. collector_calculate_quality_score c = Inr s))"
  using calculate_quality_score_result [of a] calculate_quality_score_returns [of a]
    collector_score_nonneg [of c] collector_score_returns [of c]
  by blast

theorem calculate_quality_score_effect_witness:
  "calculate_quality_score fenced_agent = Inr (5, fenced_agent\<lparr>has_examples := True\<rparr>)
   \<and> calculate_quality_score (fenced_agent\<lparr>has_examples := True\<rparr>)
       = Inr (5, fenced_agent\<lparr>has_examples := True\<rparr>)
   \<and> \<not> has_yaml fenced_agent
   \<and> yaml_frontmatter (described_collected_agent short_description)
       = YMap [(YStr ''description'', YStr short_description)]
   \<and> (\<exists>s\<ge>0. collector_calculate_quality_score (described_collected_agent short_description)
              = Inr s)"
proof -
  note effect = calculate_quality_score_effect
      [of fenced_agent "described_collected_agent short_description"]
  have score: "calculate_quality_score fenced_agent
               = Inr (5, fenced_agent\<lparr>has_examples := True\<rparr>)"
    by (simp add: fenced_agent_def calculate_quality_score_def yaml_points_def
        length_points_def structure_points_def specificity_points_def code_points_def
        repo_points_def repo_in_source_def examples_marker_def quality_repos_def
        lower_eval startswith_eval)
  have again: "calculate_quality_score (fenced_agent\<lparr>has_examples := True\<rparr>)
               = Inr (5, fenced_agent\<lparr>has_examples := True\<rparr>)"
    using effect score by blast
  have no_header: "\<not> has_yaml fenced_agent"
    by (simp add: fenced_agent_def)
  have header: "yaml_frontmatter (described_collected_agent short_description)
                = YMap [(YStr ''description'', YStr short_description)]"
    by (simp add: described_collected_agent_def)
  have "\<exists>s\<ge>0. collector_calculate_quality_score (described_collected_agent short_description)
              = Inr s"
    using effect header by blast
  with score again no_header header show ?thesis
    by blast
qed

lemma header_description_points:
  "header_description y = Some (YStr d) \<Longrightarrow>
   description_points y
   = Inr (5 + (if length d > 100 then 5 else if length d > 50 then 3 else 0))"
proof (cases y)
  case (YMap kvs)
  assume "header_description y = Some (YStr d)"
  with YMap show ?thesis
    by (simp add: description_points_def py_contains_map_of del: py_contains.simps)
qed simp_all


lemma description_bonus_deduplicator:
  assumes "has_yaml a"
    and da: "header_description (yaml_data a) = Some (YStr da)"
    and db: "header_description (yaml_data b) = Some (YStr db)"
    and "length da > 100" and "length db < 50"
    and sa: "scorable_header (yaml_data a)" and sb: "scorable_header (yaml_data b)"
    and eq: "other_signals a = other_signals b"
  shows "\<exists>s a' b'. calculate_quality_score a = Inr (s + 5, a')
                   \<and> calculate_quality_score b = Inr (s, b')"
proof -
  from scorable_tools_points [OF sa] obtain tp where
    tp: "tools_points (yaml_data a) = Inr tp" by blast
  from scorable_name [OF sa] obtain n where
    n: "py_contains ''name'' (yaml_data a) = Inr n" by blast
  from eq tp n have tpb: "tools_points (yaml_data b) = Inr tp"
    and nb: "py_contains ''name'' (yaml_data b) = Inr n"
    and hb: "has_yaml b = has_yaml a"
    and rest: "length_points (content_length a) + structure_points a + specificity_points a
                 + code_points a + repo_points a
               = length_points (content_length b) + structure_points b
                 + specificity_points b + code_points b + repo_points b"
    by (simp_all add: other_signals_def)
  show ?thesis
    using assms(1,4,5) hb tp tpb n nb rest
      header_description_points [OF da] header_description_points [OF db]
    by (simp add: calculate_quality_score_def yaml_points_def)
qed


lemma collector_ignores_description:
  assumes "yaml_frontmatter c = YMap k1" and "yaml_frontmatter d = YMap k2"
    and "fst ` set k1 = fst ` set k2"
    and "collector_content_points (c_content c) = collector_content_points (c_content d)"
  shows "collector_calculate_quality_score c = collector_calculate_quality_score d"
  using assms by (auto simp: collector_calculate_quality_score_def frontmatter_points_def)


lemma described_content_points:
  "collector_content_points (described_document long_description) = 0"
  "collector_content_points (described_document short_description) = 0"
  by (simp_all add: collector_content_points_def keyword_points_def described_document_def
      long_description_def short_description_def instruction_keywords_def
      lower_eval startswith_eval)


lemma described_other_signals:
  "other_signals (described_agent long_description) = (0, True, Inr False, Inr 0)"
  "other_signals (described_agent short_description) = (0, True, Inr False, Inr 0)"
  by (simp_all add: described_agent_def other_signals_def length_points_def
      structure_points_def specificity_points_def code_points_def repo_points_def
      repo_in_source_def tools_points_def examples_marker_def quality_repos_def
      described_document_def long_description_def short_description_def
      lower_eval startswith_eval)


text \<open>
  C8 (as stated, refuted). The claim holds of one of the two scorers only. The
  collector's scorer adds 5 for a header that has a description and never looks at its
  length: two records that differ in their description alone, one of 110 characters and
  one of 24, both score 15.
\<close>


theorem collector_description_length_counterexample:
  "length long_description > 100 \<and> length short_description < 50
   \<and> collector_calculate_quality_score (described_collected_agent long_description) = Inr 15
   \<and> collector_calculate_quality_score (described_collected_agent short_description) = Inr 15"
  using described_content_points
  by (simp add: collector_calculate_quality_score_def frontmatter_points_def
      described_collected_agent_def)
    (simp add: long_description_def short_description_def)


text \<open>
  C8 (amended). In the deduplicator's scorer, for any two records with a header that
  agree in every signal other than the description, whose headers are dicts with a
  string description and values for \<open>tools\<close> that have a length, one description longer
  than 100 characters and the other shorter than 50: both are scored, and the record with
  the longer description scores exactly 5 more. The collector's scorer gives two records
  the same score whenever their headers are dicts with the same keys and their contents
  earn the same points, whatever the lengths of their descriptions.
\<close>


theorem description_bonus:
  "(has_yaml a \<and> header_description (yaml_data a) = Some (YStr da)
      \<and> header_description (yaml_data b) = Some (YStr db)
      \<and> length da > 100 \<and> length db < 50
      \<and> scorable_header (yaml_data a) \<and> scorable_header (yaml_data b)
      \<and> other_signals a = other_signals b
    \<longrightarrow> (\<exists>s a' b'. calculate_quality_score a = Inr (s + 5, a')
                    \<and> calculate_quality_score b = Inr (s, b')))
   \<and> (yaml_frontmatter c = YMap k1 \<and> yaml_frontmatter d = YMap k2
      \<and> fst ` set k1 = fst ` set k2
      \<and> collector_content_points (c_content c) = collector_content_points (c_content d)
    \<longrightarrow> collector_calculate_quality_score c = collector_calculate_quality_score d)"
  using description_bonus_deduplicator [of a da b db]
    collector_ignores_description [of c k1 d k2]
  by blast


theorem description_bonus_witness:
  "has_yaml (described_agent long_description)
   \<and> length long_description > 100 \<and> length short_description < 50
   \<and> other_signals (described_agent long_description)
       = other_signals (described_agent short_description)
   \<and> (\<exists>s a' b'. calculate_quality_score (described_agent long_description) = Inr (s + 5, a')
          \<and> calculate_quality_score (described_agent short_description) = Inr (s, b'))
   \<and> collector_calculate_quality_score (described_collected_agent long_description)
       = collector_calculate_quality_score (described_collected_agent short_description)"
proof -
  have lens: "length long_description > 100" "length short_description < 50"
    by (simp_all add: long_description_def short_description_def)
  have headers:
    "has_yaml (described_agent long_description)"
    "header_description (yaml_data (described_agent long_description))
     = Some (YStr long_description)"
    "header_description (yaml_data (described_agent short_description))
     = Some (YStr short_description)"
    "scorable_header (yaml_data (described_agent long_description))"
    "scorable_header (yaml_data (described_agent short_description))"
    by (simp_all add: described_agent_def)
  have frontmatter:
    "yaml_frontmatter (described_collected_agent long_description)
     = YMap [(YStr ''description'', YStr long_description)]"
    "yaml_frontmatter (described_collected_agent short_description)
     = YMap [(YStr ''description'', YStr short_description)]"
    "c_content (described_collected_agent long_description)
     = described_document long_description"
    "c_content (described_collected_agent short_description)
     = described_document short_description"
    by (simp_all add: described_collected_agent_def)
  show ?thesis
    using lens headers frontmatter described_other_signals described_content_points
      description_bonus
        [of "described_agent long_description" long_description
            "described_agent short_description" short_description
            "described_collected_agent long_description"
            "[(YStr ''description'', YStr long_description)]"
            "described_collected_agent short_description"
            "[(YStr ''description'', YStr short_description)]"]
    by simp
qed

section \<open>The group resolver\<close>

lemma first_match_split:
  "filter P xs \<noteq> [] \<Longrightarrow>
   \<exists>pre post. xs = pre @ hd (filter P xs) # post \<and> (\<forall>a\<in>set pre. \<not> P a)"
proof (induction xs)
  case Nil
  then show ?case by simp
next
  case (Cons x xs)
  show ?case
  proof (cases "P x")
    case True
    then have "x # xs = [] @ hd (filter P (x # xs)) # xs" by simp
    then show ?thesis by (metis empty_iff list.set(1))
  next
    case False
    with Cons.prems have "filter P xs \<noteq> []" by simp
    from Cons.IH [OF this] obtain pre post where
      "xs = pre @ hd (filter P xs) # post" "\<forall>a\<in>set pre. \<not> P a" by blast
    with False have "x # xs = (x # pre) @ hd (filter P (x # xs)) # post
                     \<and> (\<forall>a\<in>set (x # pre). \<not> P a)" by simp
    then show ?thesis by blast
  qed
qed

lemma last_filter_keep: "xs \<noteq> [] \<Longrightarrow> P (last xs) \<Longrightarrow> last (filter P xs) = last xs"
  by (induction xs) (auto simp: filter_empty_conv)

lemma py_sort_desc_hd:
  assumes "xs \<noteq> []"
  shows "py_sort_desc key xs \<noteq> []"
    and "\<forall>a\<in>set xs. key a \<le> key (hd (py_sort_desc key xs))"
    and "hd (py_sort_desc key xs) = hd (filter (\<lambda>a. key a = key (hd (py_sort_desc key xs))) xs)"
proof -
  define ys where "ys = sort_key key (rev xs)"
  have ne: "ys \<noteq> []"
    using assms by (metis ys_def length_sort length_rev length_0_conv)
  have res: "py_sort_desc key xs = rev ys" by (simp add: py_sort_desc_def ys_def)
  have hd_last: "hd (py_sort_desc key xs) = last ys"
    using ne by (simp add: res hd_rev)
  show "py_sort_desc key xs \<noteq> []" using ne res by simp
  have sorted: "sorted (map key ys)" by (simp add: ys_def)
  have set_ys: "set ys = set xs" by (simp add: ys_def)
  show bound: "\<forall>a\<in>set xs. key a \<le> key (hd (py_sort_desc key xs))"
  proof
    fix a assume "a \<in> set xs"
    then have "a \<in> set ys" by (simp add: set_ys)
    then obtain i where i: "i < length ys" "ys ! i = a" by (auto simp: in_set_conv_nth)
    have "map key ys ! i \<le> map key ys ! (length ys - 1)"
      using sorted i(1) by (intro sorted_nth_mono) auto
    then show "key a \<le> key (hd (py_sort_desc key xs))"
      using i ne by (simp add: hd_last last_conv_nth)
  qed
  let ?m = "key (last ys)"
  have "filter (\<lambda>a. key a = ?m) ys = filter (\<lambda>a. key a = ?m) (rev xs)"
    by (simp add: ys_def sort_key_stable)
  moreover have "last (filter (\<lambda>a. key a = ?m) ys) = last ys"
    using ne by (simp add: last_filter_keep)
  ultimately have "last ys = last (rev (filter (\<lambda>a. key a = ?m) xs))"
    by (simp add: rev_filter)
  moreover have "filter (\<lambda>a. key a = ?m) xs \<noteq> []"
    using ne set_ys by (metis (mono_tags, lifting) filter_empty_conv last_in_set)
  ultimately have "last ys = hd (filter (\<lambda>a. key a = ?m) xs)"
    by (simp add: last_rev)
  then show "hd (py_sort_desc key xs) = hd (filter (\<lambda>a. key a = key (hd (py_sort_desc key xs))) xs)"
    by (simp add: hd_last)
qed

lemma py_sort_desc_first_max:
  assumes "xs \<noteq> []"
  shows "\<exists>best rejected pre post.
           py_sort_desc key xs = best # rejected
           \<and> xs = pre @ best # post
           \<and> (\<forall>a\<in>set pre. key a < key best)
           \<and> (\<forall>a\<in>set post. key a \<le> key best)"
proof -
  let ?best = "hd (py_sort_desc key xs)"
  from py_sort_desc_hd [OF assms, of key]
  have ne: "py_sort_desc key xs \<noteq> []"
    and bound: "\<forall>a\<in>set xs. key a \<le> key ?best"
    and first: "?best = hd (filter (\<lambda>a. key a = key ?best) xs)" by blast+
  have "?best \<in> set xs"
    using ne by (metis py_sort_desc_def hd_in_set set_rev set_sort)
  then have "filter (\<lambda>a. key a = key ?best) xs \<noteq> []"
    by (auto simp: filter_empty_conv)
  from first_match_split [OF this] first obtain pre post where
    split: "xs = pre @ ?best # post" and pre: "\<forall>a\<in>set pre. key a \<noteq> key ?best"
    by metis
  have "\<forall>a\<in>set pre. key a < key ?best"
  proof
    fix a assume a: "a \<in> set pre"
    with split have "a \<in> set xs" by (metis in_set_conv_decomp append_Cons append_assoc Un_iff set_append)
    with bound pre a show "key a < key ?best" by force
  qed
  moreover have "\<forall>a\<in>set post. key a \<le> key ?best"
  proof
    fix a assume "a \<in> set post"
    with split have "a \<in> set xs" by (metis Un_iff list.set_intros(2) set_append)
    with bound show "key a \<le> key ?best" by blast
  qed
  moreover have "py_sort_desc key xs = ?best # tl (py_sort_desc key xs)"
    using ne by simp
  ultimately show ?thesis using split by blast
qed

lemma py_sort_desc_sorted:
  "sorted (rev (map key (py_sort_desc key xs)))"
  "filter (\<lambda>a. key a = k) (py_sort_desc key xs) = filter (\<lambda>a. key a = k) xs"
  "set (py_sort_desc key xs) = set xs"
  "length (py_sort_desc key xs) = length xs"
  by (simp_all add: py_sort_desc_def rev_map rev_filter [symmetric] sort_key_stable)

lemma select_best_first_max:
  assumes "agents \<noteq> []"
  shows "\<exists>best rejected pre post.
           select_best agents = Inr (best, rejected)
           \<and> agents = pre @ best # post
           \<and> (\<forall>a\<in>set pre. quality_score a < quality_score best)
           \<and> (\<forall>a\<in>set post. quality_score a \<le> quality_score best)"
proof -
  from py_sort_desc_first_max [OF assms, of quality_score] obtain best rejected pre post where
    "py_sort_desc quality_score agents = best # rejected"
    "agents = pre @ best # post"
    "\<forall>a\<in>set pre. quality_score a < quality_score best"
    "\<forall>a\<in>set post. quality_score a \<le> quality_score best"
    by blast
  then show ?thesis by (auto simp: select_best_def)
qed

lemma select_best_sorted:
  assumes "select_best agents = Inr (best, rejected)"
  shows "sorted (rev (map quality_score (best # rejected)))"
    and "filter (\<lambda>a. quality_score a = k) (best # rejected)
         = filter (\<lambda>a. quality_score a = k) agents"
proof -
  from assms have "py_sort_desc quality_score agents = best # rejected"
    by (auto simp: select_best_def split: list.splits)
  with py_sort_desc_sorted(1,2) [where key = quality_score and xs = agents]
  show "sorted (rev (map quality_score (best # rejected)))"
    and "filter (\<lambda>a. quality_score a = k) (best # rejected)
         = filter (\<lambda>a. quality_score a = k) agents"
    by simp_all
qed

lemma select_best_40_55_55:
  assumes "quality_score a = 40" and "quality_score b = 55" and "quality_score c = 55"
  shows "select_best [a, b, c] = Inr (b, [c, a])"
  using assms by (simp add: select_best_def py_sort_desc_def)

lemma collector_select_first_max:
  assumes "group_agents \<noteq> []"
  shows "\<exists>best rest pre post.
           collector_select group_agents = Inr (best, rest)
           \<and> group_agents = pre @ best # post
           \<and> (\<forall>a\<in>set pre. c_quality_score a < c_quality_score best)
           \<and> (\<forall>a\<in>set post. c_quality_score a \<le> c_quality_score best)"
proof (cases "length group_agents > 1")
  case True
  from py_sort_desc_first_max [OF assms, of c_quality_score] obtain best rest pre post where
    "py_sort_desc c_quality_score group_agents = best # rest"
    "group_agents = pre @ best # post"
    "\<forall>a\<in>set pre. c_quality_score a < c_quality_score best"
    "\<forall>a\<in>set post. c_quality_score a \<le> c_quality_score best"
    by blast
  with True show ?thesis by (auto simp: collector_select_def)
next
  case False
  with assms obtain x where x: "group_agents = [x]"
    by (cases group_agents) auto
  then have "collector_select group_agents = Inr (x, []) \<and> group_agents = [] @ x # []"
    by (simp add: collector_select_def)
  then show ?thesis by (metis empty_iff list.set(1))
qed

text \<open>
  C3. For every non-empty group, the deduplicator's resolver returns a survivor and the
  rejected records; the survivor is the record of the group that has the maximal
  \<open>quality_score\<close> and stands before every other record with that score: all records
  before it in the group score strictly less, all records after it score at most as
  much. The sorted group is in descending order of score and records with equal scores
  keep their relative order. With scores 40, 55, 55 in insertion order the survivor is
  the first record of score 55. The collector's choice of a survivor has the same
  property.
\<close>

theorem resolver_selects_first_maximal:
  "(agents \<noteq> [] \<longrightarrow>
      (\<exists>best rejected pre post.
         select_best agents = Inr (best, rejected)
         \<and> agents = pre @ best # post
         \<and> (\<forall>a\<in>set pre. quality_score a < quality_score best)
         \<and> (\<forall>a\<in>set post. quality_score a \<le> quality_score best)
         \<and> sorted (rev (map quality_score (best # rejected)))
         \<and> (\<forall>k. filter (\<lambda>a. quality_score a = k) (best # rejected)
                = filter (\<lambda>a. quality_score a = k) agents)))
   \<and> (quality_score a = 40 \<and> quality_score b = 55 \<and> quality_score c = 55
        \<longrightarrow> select_best [a, b, c] = Inr (b, [c, a]))
   \<and> (group_agents \<noteq> [] \<longrightarrow>
      (\<exists>best rest pre post.
         collector_select group_agents = Inr (best, rest)
         \<and> group_agents = pre @ best # post
         \<and> (\<forall>a\<in>set pre. c_quality_score a < c_quality_score best)
         \<and> (\<forall>a\<in>set post. c_quality_score a \<le> c_quality_score best)))"
proof (intro conjI impI)
  assume ne: "agents \<noteq> []"
  from select_best_first_max [OF ne] obtain best rejected pre post where
    sel: "select_best agents = Inr (best, rejected)"
    and rest: "agents = pre @ best # post"
      "\<forall>a\<in>set pre. quality_score a < quality_score best"
      "\<forall>a\<in>set post. quality_score a \<le> quality_score best"
    by blast
  from select_best_sorted [OF sel]
  have "sorted (rev (map quality_score (best # rejected)))"
    and "\<forall>k. filter (\<lambda>a. quality_score a = k) (best # rejected)
             = filter (\<lambda>a. quality_score a = k) agents"
    by blast+
  with sel rest show "\<exists>best rejected pre post.
         select_best agents = Inr (best, rejected)
         \<and> agents = pre @ best # post
         \<and> (\<forall>a\<in>set pre. quality_score a < quality_score best)
         \<and> (\<forall>a\<in>set post. quality_score a \<le> quality_score best)
         \<and> sorted (rev (map quality_score (best # rejected)))
         \<and> (\<forall>k. filter (\<lambda>a. quality_score a = k) (best # rejected)
                = filter (\<lambda>a. quality_score a = k) agents)"
    by blast
next
  assume "quality_score a = 40 \<and> quality_score b = 55 \<and> quality_score c = 55"
  then show "select_best [a, b, c] = Inr (b, [c, a])"
    by (simp add: select_best_40_55_55)
next
  assume "group_agents \<noteq> []"
  then show "\<exists>best rest pre post.
         collector_select group_agents = Inr (best, rest)
         \<and> group_agents = pre @ best # post
         \<and> (\<forall>a\<in>set pre. c_quality_score a < c_quality_score best)
         \<and> (\<forall>a\<in>set post. c_quality_score a \<le> c_quality_score best)"
    by (rule collector_select_first_max)
qed

theorem resolver_selects_first_maximal_witness:
  "[scored_agent ''a'' 40, scored_agent ''b'' 55, scored_agent ''c'' 55] \<noteq> []
   \<and> quality_score (scored_agent ''a'' 40) = 40
   \<and> quality_score (scored_agent ''b'' 55) = 55
   \<and> quality_score (scored_agent ''c'' 55) = 55
   \<and> select_best [scored_agent ''a'' 40, scored_agent ''b'' 55, scored_agent ''c'' 55]
       = Inr (scored_agent ''b'' 55, [scored_agent ''c'' 55, scored_agent ''a'' 40])
   \<and> [described_collected_agent short_description] \<noteq> []
   \<and> collector_select [described_collected_agent short_description]
       = Inr (described_collected_agent short_description, [])"
proof -
  have scores: "quality_score (scored_agent ''a'' 40) = 40"
    "quality_score (scored_agent ''b'' 55) = 55" "quality_score (scored_agent ''c'' 55) = 55"
    by (simp_all add: scored_agent_def)
  have "collector_select [described_collected_agent short_description]
        = Inr (described_collected_agent short_description, [])"
    by (simp add: collector_select_def)
  with scores show ?thesis
    using resolver_selects_first_maximal
      [of "[scored_agent ''a'' 40, scored_agent ''b'' 55, scored_agent ''c'' 55]"
          "scored_agent ''a'' 40" "scored_agent ''b'' 55" "scored_agent ''c'' 55"
          "[described_collected_agent short_description]"]
    by blast
qed

section \<open>The classifier\<close>

lemma scan_rows_append:
  "scan_rows n d c (xs @ ys) best = scan_rows n d c ys (scan_rows n d c xs best)"
  by (induction n d c xs best rule: scan_rows.induct) simp_all

lemma scan_subcategories_rows:
  "scan_subcategories n d c cat subs best
   = scan_rows n d c (map (\<lambda>(sub, keywords). (cat, sub, keywords)) subs) best"
  by (induction n d c cat subs best rule: scan_subcategories.induct) (simp_all add: Let_def)

lemma scan_categories_rows:
  "scan_categories n d c cats best
   = scan_rows n d c
       (concat (map (\<lambda>(cat, subs). map (\<lambda>(sub, keywords). (cat, sub, keywords)) subs) cats))
       best"
  by (induction n d c cats best rule: scan_categories.induct)
    (simp_all add: scan_rows_append scan_subcategories_rows)

lemma scan_rows_first_max:
  "scan_rows n d c rows (bc, bs, s) = (rc, rs, s') \<Longrightarrow>
   ((\<forall>r\<in>set rows. subcategory_score n d c (snd (snd r)) \<le> s) \<and> (rc, rs, s') = (bc, bs, s))
   \<or> (\<exists>pre cat sub kws post. rows = pre @ (cat, sub, kws) # post
        \<and> rc = cat \<and> rs = sub \<and> s' = subcategory_score n d c kws \<and> s < s'
        \<and> (\<forall>r\<in>set pre. subcategory_score n d c (snd (snd r)) < s')
        \<and> (\<forall>r\<in>set post. subcategory_score n d c (snd (snd r)) \<le> s'))"
proof (induction rows arbitrary: bc bs s)
  case Nil
  then show ?case by simp
next
  case (Cons row rows)
  obtain cat sub kws where row: "row = (cat, sub, kws)" by (cases row) auto
  let ?x = "subcategory_score n d c kws"
  show ?case
  proof (cases "?x > s")
    case True
    with Cons.prems row have "scan_rows n d c rows (cat, sub, ?x) = (rc, rs, s')" by simp
    from Cons.IH [OF this] show ?thesis
    proof
      assume a: "(\<forall>r\<in>set rows. subcategory_score n d c (snd (snd r)) \<le> ?x)
                 \<and> (rc, rs, s') = (cat, sub, ?x)"
      then have "row # rows = [] @ (cat, sub, kws) # rows \<and> rc = cat \<and> rs = sub \<and> s' = ?x"
        using row by simp
      with a True show ?thesis
        by (intro disjI2 exI [of _ "[]"] exI [of _ cat] exI [of _ sub] exI [of _ kws]
            exI [of _ rows]) auto
    next
      assume "\<exists>pre cat' sub' kws' post. rows = pre @ (cat', sub', kws') # post
        \<and> rc = cat' \<and> rs = sub' \<and> s' = subcategory_score n d c kws' \<and> ?x < s'
        \<and> (\<forall>r\<in>set pre. subcategory_score n d c (snd (snd r)) < s')
        \<and> (\<forall>r\<in>set post. subcategory_score n d c (snd (snd r)) \<le> s')"
      then obtain pre cat' sub' kws' post where p: "rows = pre @ (cat', sub', kws') # post"
        "rc = cat'" "rs = sub'" "s' = subcategory_score n d c kws'" "?x < s'"
        "\<forall>r\<in>set pre. subcategory_score n d c (snd (snd r)) < s'"
        "\<forall>r\<in>set post. subcategory_score n d c (snd (snd r)) \<le> s'"
        by blast
      with True row show ?thesis
        by (intro disjI2 exI [of _ "row # pre"] exI [of _ cat'] exI [of _ sub']
            exI [of _ kws'] exI [of _ post]) auto
    qed
  next
    case False
    with Cons.prems row have "scan_rows n d c rows (bc, bs, s) = (rc, rs, s')" by simp
    from Cons.IH [OF this] show ?thesis
    proof
      assume "(\<forall>r\<in>set rows. subcategory_score n d c (snd (snd r)) \<le> s)
              \<and> (rc, rs, s') = (bc, bs, s)"
      with False row show ?thesis by auto
    next
      assume "\<exists>pre cat' sub' kws' post. rows = pre @ (cat', sub', kws') # post
        \<and> rc = cat' \<and> rs = sub' \<and> s' = subcategory_score n d c kws' \<and> s < s'
        \<and> (\<forall>r\<in>set pre. subcategory_score n d c (snd (snd r)) < s')
        \<and> (\<forall>r\<in>set post. subcategory_score n d c (snd (snd r)) \<le> s')"
      then obtain pre cat' sub' kws' post where p: "rows = pre @ (cat', sub', kws') # post"
        "rc = cat'" "rs = sub'" "s' = subcategory_score n d c kws'" "s < s'"
        "\<forall>r\<in>set pre. subcategory_score n d c (snd (snd r)) < s'"
        "\<forall>r\<in>set post. subcategory_score n d c (snd (snd r)) \<le> s'"
        by blast
      with False row show ?thesis
        by (intro disjI2 exI [of _ "row # pre"] exI [of _ cat'] exI [of _ sub']
            exI [of _ kws'] exI [of _ post]) auto
    qed
  qed
qed

lemma categorize_agent_scan:
  "\<exists>s'. scan_rows (lower (c_name a)) (lower (description a)) (lower (take 1000 (c_content a)))
          taxonomy_rows (''specialized'', ''general'', 0)
        = (fst (categorize_agent a), snd (categorize_agent a), s')"
  by (simp add: categorize_agent_def taxonomy_rows_def scan_categories_rows Let_def
      split: prod.splits)

lemma categorize_agent_cases:
  "((\<forall>row\<in>set taxonomy_rows. row_score a row \<le> 0)
      \<and> categorize_agent a = (''specialized'', ''general''))
   \<or> (\<exists>pre cat sub kws post. taxonomy_rows = pre @ (cat, sub, kws) # post
        \<and> categorize_agent a = (cat, sub)
        \<and> 0 < row_score a (cat, sub, kws)
        \<and> (\<forall>r\<in>set pre. row_score a r < row_score a (cat, sub, kws))
        \<and> (\<forall>r\<in>set post. row_score a r \<le> row_score a (cat, sub, kws)))"
proof -
  from categorize_agent_scan [of a] obtain s' where
    "scan_rows (lower (c_name a)) (lower (description a)) (lower (take 1000 (c_content a)))
          taxonomy_rows (''specialized'', ''general'', 0)
        = (fst (categorize_agent a), snd (categorize_agent a), s')" by blast
  from scan_rows_first_max [OF this] show ?thesis
    unfolding row_score_def
    by (elim disjE; simp add: prod_eq_iff) blast
qed

lemma subcategory_score_nonneg: "0 \<le> subcategory_score n d c kws"
  unfolding subcategory_score_def
  by (induction kws) (auto simp: keyword_score_def)

text \<open>
  C4. For every record, with the score of a (category, subcategory) row being the sum over
  its keywords of 3 for a match in the lowercased name, 2 in the lowercased description
  and 1 in the lowercased first 1000 characters of the content: if every row scores 0,
  the classifier returns the default pair; otherwise it returns the pair of the first
  row, in declaration order, that has the highest score, so every row before it scores
  strictly less and every row after it scores at most as much. The classifier is a
  function of the record and the ordered table.
\<close>

theorem categorize_agent_first_highest:
  "((\<forall>row\<in>set taxonomy_rows. row_score a row = 0)
      \<longrightarrow> categorize_agent a = (''specialized'', ''general''))
   \<and> ((\<exists>row\<in>set taxonomy_rows. row_score a row \<noteq> 0)
      \<longrightarrow> (\<exists>pre cat sub kws post. taxonomy_rows = pre @ (cat, sub, kws) # post
             \<and> categorize_agent a = (cat, sub)
             \<and> 0 < row_score a (cat, sub, kws)
             \<and> (\<forall>r\<in>set pre. row_score a r < row_score a (cat, sub, kws))
             \<and> (\<forall>r\<in>set post. row_score a r \<le> row_score a (cat, sub, kws))))"
proof (intro conjI impI)
  assume zero: "\<forall>row\<in>set taxonomy_rows. row_score a row = 0"
  from categorize_agent_cases [of a]
  show "categorize_agent a = (''specialized'', ''general'')"
  proof
    assume "(\<forall>row\<in>set taxonomy_rows. row_score a row \<le> 0)
            \<and> categorize_agent a = (''specialized'', ''general'')"
    then show ?thesis by simp
  next
    assume "\<exists>pre cat sub kws post. taxonomy_rows = pre @ (cat, sub, kws) # post
        \<and> categorize_agent a = (cat, sub)
        \<and> 0 < row_score a (cat, sub, kws)
        \<and> (\<forall>r\<in>set pre. row_score a r < row_score a (cat, sub, kws))
        \<and> (\<forall>r\<in>set post. row_score a r \<le> row_score a (cat, sub, kws))"
    then obtain pre cat sub kws post where
      "taxonomy_rows = pre @ (cat, sub, kws) # post" "0 < row_score a (cat, sub, kws)"
      by blast
    moreover from this(1) have "(cat, sub, kws) \<in> set taxonomy_rows"
      by (metis in_set_conv_decomp)
    ultimately show ?thesis using zero by force
  qed
next
  assume "\<exists>row\<in>set taxonomy_rows. row_score a row \<noteq> 0"
  then obtain row where row: "row \<in> set taxonomy_rows" "row_score a row \<noteq> 0" by blast
  have "0 \<le> row_score a row"
    by (simp add: row_score_def subcategory_score_nonneg)
  with row have "\<not> (\<forall>row\<in>set taxonomy_rows. row_score a row \<le> 0)" by force
  with categorize_agent_cases [of a]
  show "\<exists>pre cat sub kws post. taxonomy_rows = pre @ (cat, sub, kws) # post
             \<and> categorize_agent a = (cat, sub)
             \<and> 0 < row_score a (cat, sub, kws)
             \<and> (\<forall>r\<in>set pre. row_score a r < row_score a (cat, sub, kws))
             \<and> (\<forall>r\<in>set post. row_score a r \<le> row_score a (cat, sub, kws))"
    by blast
qed

lemmas classifier_eval =
  categories_def subcategory_score_def keyword_score_def lower_eval startswith_eval

theorem categorize_agent_first_highest_witness:
  "categorize_agent (named_agent ''helper'' []) = (''specialized'', ''general'')
   \<and> row_score (named_agent ''django-orm-expert'' ''Works with postgres.'')
         (''languages'', ''python'',
          [''python'', ''py'', ''pip'', ''django'', ''flask'', ''fastapi'']) = 3
   \<and> categorize_agent (named_agent ''django-orm-expert'' ''Works with postgres.'')
       = (''languages'', ''python'')"
proof -
  have zero: "\<forall>row\<in>set taxonomy_rows. row_score (named_agent ''helper'' []) row = 0"
    by (simp add: taxonomy_rows_def row_score_def named_agent_def classifier_eval)
  have three: "row_score (named_agent ''django-orm-expert'' ''Works with postgres.'')
          (''languages'', ''python'',
           [''python'', ''py'', ''pip'', ''django'', ''flask'', ''fastapi'']) = 3"
    by (simp add: row_score_def named_agent_def classifier_eval)
  moreover have "(''languages'', ''python'',
           [''python'', ''py'', ''pip'', ''django'', ''flask'', ''fastapi''])
         \<in> set taxonomy_rows"
    by (simp add: taxonomy_rows_def categories_def)
  ultimately have some: "\<exists>row\<in>set taxonomy_rows.
         row_score (named_agent ''django-orm-expert'' ''Works with postgres.'') row \<noteq> 0"
    by force
  have django: "categorize_agent (named_agent ''django-orm-expert'' ''Works with postgres.'')
                = (''languages'', ''python'')"
    by (simp add: categorize_agent_def named_agent_def classifier_eval)
  from zero three django
    categorize_agent_first_highest [of "named_agent ''helper'' []"]
  show ?thesis by blast
qed

section \<open>The duplicate grouper\<close>

lemma scan_candidates_filter:
  "distinct (map path rest) \<Longrightarrow>
   scan_candidates s rest (cg, P)
   = (cg @ filter (\<lambda>a. path a \<notin> P \<and> is_duplicate s a) rest,
      P \<union> path ` set (filter (\<lambda>a. path a \<notin> P \<and> is_duplicate s a) rest))"
proof (induction rest arbitrary: cg P)
  case Nil
  then show ?case by simp
next
  case (Cons a2 rest)
  then have d: "distinct (map path rest)" and "path a2 \<notin> path ` set rest" by simp_all
  then have fresh: "\<And>a. a \<in> set rest \<Longrightarrow> path a \<noteq> path a2" by (metis imageI)
  show ?case
  proof (cases "path a2 \<in> P")
    case True
    with Cons.IH [OF d] show ?thesis by simp
  next
    case False
    show ?thesis
    proof (cases "is_duplicate s a2")
      case dup: True
      have f1: "filter (\<lambda>a. path a \<notin> insert (path a2) P \<and> is_duplicate s a) rest
            = filter (\<lambda>a. path a \<notin> P \<and> is_duplicate s a) rest"
        using fresh by (intro filter_cong) auto
      from Cons.IH [OF d, of "cg @ [a2]" "insert (path a2) P"]
      have "scan_candidates s rest (cg @ [a2], insert (path a2) P)
            = ((cg @ [a2]) @ filter (\<lambda>a. path a \<notin> P \<and> is_duplicate s a) rest,
               insert (path a2) P
               \<union> path ` set (filter (\<lambda>a. path a \<notin> P \<and> is_duplicate s a) rest))"
        by (simp only: f1)
      with False dup show ?thesis by simp
    next
      case nodup: False
      with Cons.IH [OF d] False show ?thesis by simp
    qed
  qed
qed

lemma find_groups_seed_groups:
  "distinct (map path xs) \<Longrightarrow>
   find_groups xs (P, G)
   = (P \<union> path ` set xs,
      G @ filter (\<lambda>g. 1 < length g) (seed_groups is_duplicate (filter (\<lambda>a. path a \<notin> P) xs)))"
proof (induction xs arbitrary: P G)
  case Nil
  then show ?case by simp
next
  case (Cons a1 rest)
  then have d: "distinct (map path rest)" and "path a1 \<notin> path ` set rest" by simp_all
  then have fresh: "\<And>a. a \<in> set rest \<Longrightarrow> path a \<noteq> path a1" by (metis imageI)
  show ?case
  proof (cases "path a1 \<in> P")
    case True
    then have "P \<union> path ` set (a1 # rest) = P \<union> path ` set rest" by auto
    with Cons.IH [OF d, of P G] True show ?thesis by simp
  next
    case False
    let ?U = "filter (\<lambda>a. path a \<notin> P) rest"
    let ?P1 = "insert (path a1) P"
    let ?members = "filter (is_duplicate a1) ?U"
    have "filter (\<lambda>a. path a \<notin> ?P1 \<and> is_duplicate a1 a) rest
          = filter (\<lambda>a. path a \<notin> P \<and> is_duplicate a1 a) rest"
      using fresh by (intro filter_cong) auto
    also have "\<dots> = ?members"
      by (simp add: conj_commute)
    finally have f1: "filter (\<lambda>a. path a \<notin> ?P1 \<and> is_duplicate a1 a) rest = ?members" .
    have scan: "scan_candidates a1 rest ([a1], ?P1) = (a1 # ?members, ?P1 \<union> path ` set ?members)"
      using scan_candidates_filter [OF d, of a1 "[a1]" ?P1] by (simp only: f1) simp
    let ?P2 = "?P1 \<union> path ` set ?members"
    have inj: "inj_on path (set rest)"
      using d by (simp add: distinct_map)
    have f2: "filter (\<lambda>a. path a \<notin> ?P2) rest = filter (\<lambda>a. \<not> is_duplicate a1 a) ?U"
    proof -
      have "\<And>a. a \<in> set rest \<Longrightarrow> (path a \<notin> ?P2) = (path a \<notin> P \<and> \<not> is_duplicate a1 a)"
      proof -
        fix a assume a: "a \<in> set rest"
        have "path a \<in> path ` set ?members \<longleftrightarrow> a \<in> set ?members"
        proof
          assume "path a \<in> path ` set ?members"
          then obtain b where b: "b \<in> set ?members" "path b = path a" by auto
          then have "b \<in> set rest" by simp
          with inj a b(2) have "b = a" by (auto dest: inj_onD)
          with b(1) show "a \<in> set ?members" by simp
        qed simp
        moreover have "path a \<noteq> path a1" using fresh [OF a] .
        ultimately show "(path a \<notin> ?P2) = (path a \<notin> P \<and> \<not> is_duplicate a1 a)"
          using a by auto
      qed
      then have "filter (\<lambda>a. path a \<notin> ?P2) rest
                 = filter (\<lambda>a. path a \<notin> P \<and> \<not> is_duplicate a1 a) rest"
        by (intro filter_cong) auto
      then show ?thesis by (simp add: conj_commute)
    qed
    have sets: "?P2 \<union> path ` set rest = P \<union> path ` set (a1 # rest)" by auto
    define cg where "cg = a1 # ?members"
    define G' where "G' = (if 1 < length cg then G @ [cg] else G)"
    let ?later = "seed_groups is_duplicate (filter (\<lambda>a. \<not> is_duplicate a1 a) ?U)"
    have unfold: "find_groups (a1 # rest) (P, G) = find_groups rest (?P2, G')"
      using False by (simp only: find_groups.simps scan cg_def G'_def if_False prod.case)
    have IH: "find_groups rest (?P2, G')
              = (?P2 \<union> path ` set rest,
                 G' @ filter (\<lambda>g. 1 < length g)
                        (seed_groups is_duplicate (filter (\<lambda>a. path a \<notin> ?P2) rest)))"
      by (rule Cons.IH [OF d])
    have sg: "seed_groups is_duplicate (filter (\<lambda>a. path a \<notin> P) (a1 # rest)) = cg # ?later"
      using False by (simp add: cg_def)
    have glue: "G' @ filter (\<lambda>g. 1 < length g) ?later
                = G @ filter (\<lambda>g. 1 < length g) (cg # ?later)"
      by (simp add: G'_def)
    show ?thesis
      by (simp only: unfold IH f2 sets sg glue)
  qed
qed

lemma find_duplicates_seed_groups:
  "distinct (map path xs) \<Longrightarrow>
   find_duplicates xs = filter (\<lambda>g. 1 < length g) (seed_groups is_duplicate xs)"
  by (simp add: find_duplicates_def find_groups_seed_groups)

lemma mset_seed_groups: "mset (concat (seed_groups dup xs)) = mset xs"
  by (induction dup xs rule: seed_groups.induct) (simp_all add: not_def [symmetric])


lemma seed_groups_nonempty: "[] \<notin> set (seed_groups dup xs)"
  by (induction dup xs rule: seed_groups.induct) auto

lemma seed_groups_members:
  "g \<in> set (seed_groups dup xs) \<Longrightarrow>
   \<exists>seed members. g = seed # members \<and> (\<forall>m\<in>set members. dup seed m)"
  by (induction dup xs rule: seed_groups.induct) auto

lemma seed_groups_subset: "g \<in> set (seed_groups dup xs) \<Longrightarrow> set g \<subseteq> set xs"
proof -
  assume "g \<in> set (seed_groups dup xs)"
  then have "set g \<subseteq> set (concat (seed_groups dup xs))" by auto
  also have "\<dots> = set xs"
    using mset_seed_groups [of dup xs] by (metis set_mset_mset)
  finally show ?thesis .
qed

lemma seed_groups_first_match:
  "seed_groups dup xs = pre @ g # post \<Longrightarrow> g' \<in> set post \<Longrightarrow> m \<in> set g' \<Longrightarrow>
   \<not> dup (hd g) m"
proof (induction dup xs arbitrary: pre rule: seed_groups.induct)
  case (1 dup)
  then show ?case by simp
next
  case (2 dup seed rest)
  let ?later = "seed_groups dup (filter (\<lambda>a. \<not> dup seed a) rest)"
  show ?case
  proof (cases pre)
    case Nil
    with "2.prems"(1) have g: "g = seed # filter (dup seed) rest" and post: "post = ?later"
      by simp_all
    from "2.prems"(2,3) post have "m \<in> set (filter (\<lambda>a. \<not> dup seed a) rest)"
      using seed_groups_subset by blast
    with g show ?thesis by simp
  next
    case (Cons p pre')
    with "2.prems"(1) have "?later = pre' @ g # post" by simp
    from "2.IH" [OF this "2.prems"(2,3)] show ?thesis .
  qed
qed

lemma mset_concat_split:
  "mset (concat (filter P L)) + mset (concat (filter (\<lambda>g. \<not> P g) L)) = mset (concat L)"
  by (induction L) auto

lemma select_from_groups_bests:
  "[] \<notin> set groups \<Longrightarrow>
   \<exists>bests entries. select_from_groups groups (unique_agents, decision_log)
                     = Inr (unique_agents @ bests, decision_log @ entries)
     \<and> list_all2 (\<lambda>best g. best \<in> set g) bests groups"
proof (induction groups arbitrary: unique_agents decision_log)
  case Nil
  then show ?case by simp
next
  case (Cons g groups)
  then have ne: "g \<noteq> []" and rest: "[] \<notin> set groups" by auto
  from select_best_first_max [OF ne] obtain best others pre post where
    sel: "select_best g = Inr (best, others)" and mem: "g = pre @ best # post" by blast
  let ?entry = "\<lparr>decision_group = get_semantic_key (name best),
              decision_selected = name best, decision_score = quality_score best,
              decision_rejected = map name others\<rparr>"
  from Cons.IH [OF rest, of "unique_agents @ [best]" "decision_log @ [?entry]"]
  obtain bests entries where
    "select_from_groups groups (unique_agents @ [best], decision_log @ [?entry])
     = Inr ((unique_agents @ [best]) @ bests, (decision_log @ [?entry]) @ entries)"
    and all: "list_all2 (\<lambda>best g. best \<in> set g) bests groups"
    by blast
  with sel have "select_from_groups (g # groups) (unique_agents, decision_log)
                 = Inr (unique_agents @ (best # bests), decision_log @ (?entry # entries))"
    by simp
  moreover have "list_all2 (\<lambda>best g. best \<in> set g) (best # bests) (g # groups)"
    using all mem by simp
  ultimately show ?case by blast
qed


lemma concat_groups_disjoint:
  assumes "distinct (concat G)" and "[] \<notin> set G"
    and "i < length G" and "j < length G"
    and "u \<in> set (G ! i)" and "u \<in> set (G ! j)"
  shows "i = j"
proof (rule ccontr)
  assume "i \<noteq> j"
  from assms(1,2) have "distinct G"
    by (metis distinct_concat_iff removeAll_id)
  with \<open>i \<noteq> j\<close> assms(3,4) have "G ! i \<noteq> G ! j"
    by (simp add: nth_eq_iff_index_eq)
  moreover have "G ! i \<in> set G" "G ! j \<in> set G"
    using assms(3,4) by simp_all
  ultimately have "set (G ! i) \<inter> set (G ! j) = {}"
    using assms(1) by (meson distinct_concat_iff)
  with assms(5,6) show False by blast
qed

lemma grouping_partition:
  assumes d: "distinct (map path xs)"
  shows "mset (concat (find_duplicates xs)) + mset (ungrouped xs (find_duplicates xs)) = mset xs"
    and "distinct (concat (find_duplicates xs) @ ungrouped xs (find_duplicates xs))"
    and "[] \<notin> set (find_duplicates xs)"
proof -
  let ?SG = "seed_groups is_duplicate xs"
  let ?G = "find_duplicates xs"
  let ?A = "concat ?G"
  let ?B = "concat (filter (\<lambda>g. \<not> 1 < length g) ?SG)"
  let ?U = "ungrouped xs ?G"
  have G: "?G = filter (\<lambda>g. 1 < length g) ?SG"
    by (rule find_duplicates_seed_groups [OF d])
  have AB: "mset (?A @ ?B) = mset xs"
    using mset_concat_split [of "\<lambda>g. 1 < length g" ?SG] mset_seed_groups [of is_duplicate xs]
    by (simp add: G)
  have dx: "distinct xs" using d by (simp add: distinct_map)
  have dAB: "distinct (?A @ ?B)"
    using AB dx by (metis mset_eq_imp_distinct_iff)
  have inj: "inj_on path (set xs)" using d by (simp add: distinct_map)
  have A_sub: "set ?A \<subseteq> set xs"
    using AB by (metis Un_upper1 set_append set_mset_mset)
  have "\<And>a. a \<in> set xs \<Longrightarrow> (path a \<notin> path ` set ?A) = (a \<notin> set ?A)"
  proof -
    fix a assume a: "a \<in> set xs"
    show "(path a \<notin> path ` set ?A) = (a \<notin> set ?A)"
    proof
      assume "path a \<notin> path ` set ?A"
      then show "a \<notin> set ?A" by blast
    next
      assume na: "a \<notin> set ?A"
      show "path a \<notin> path ` set ?A"
      proof
        assume "path a \<in> path ` set ?A"
        then obtain b where b: "b \<in> set ?A" "path b = path a" by (metis imageE)
        with A_sub have "b \<in> set xs" by blast
        with inj a b(2) have "b = a" by (auto dest: inj_onD)
        with b(1) na show False by simp
      qed
    qed
  qed
  then have U: "?U = filter (\<lambda>a. a \<notin> set ?A) xs"
    unfolding ungrouped_def in_groups_def by (intro filter_cong) auto
  have "mset ?U = filter_mset (\<lambda>a. a \<notin> set ?A) (mset (?A @ ?B))"
    by (simp only: U AB mset_filter)
  also have "\<dots> = mset (filter (\<lambda>a. a \<notin> set ?A) ?A @ filter (\<lambda>a. a \<notin> set ?A) ?B)"
    by (simp only: mset_filter [symmetric] filter_append)
  also have "filter (\<lambda>a. a \<notin> set ?A) ?A = []"
    by (simp add: filter_empty_conv)
  also have "filter (\<lambda>a. a \<notin> set ?A) ?B = ?B"
    using dAB by (intro filter_True) auto
  finally have UB: "mset ?U = mset ?B" by simp
  show "mset ?A + mset ?U = mset xs"
    using AB UB by simp
  have "mset (?A @ ?U) = mset (?A @ ?B)" using UB by simp
  then show "distinct (?A @ ?U)"
    using dAB by (metis mset_eq_imp_distinct_iff)
  show "[] \<notin> set ?G"
    using seed_groups_nonempty [of is_duplicate xs] by (simp add: G)
qed

lemmas key_eval = get_semantic_key_def strip_number_prefix_def is_digit_def separator_to_space_def
  suffix_rules_def with_separators_def rule_rests_def match_rule_def py_strip_def is_space_def
  lower_eval

lemmas flm_eval = find_longest_match_def flm_outer.simps extend_left.simps extend_right.simps
  b2j_def indices_of_def

lemmas ratio_eval = ratio_def matches_total_def block_size_def get_matching_blocks_def
  matching_blocks_loop.simps flm_eval sort_key_simps

lemmas similarity_eval = name_similarity_def content_similarity_def clean_name_def
  is_lower_alnum_def role_suffixes_def before_line_feed_def startswith_eval ratio_eval

lemmas sample_eval = java_pro_def java_def javascript_def sample_agent_def


lemma java_pro_java: "is_duplicate java_pro java"
  by (simp add: is_duplicate_def sample_eval key_eval similarity_eval)

lemma java_pro_javascript: "\<not> is_duplicate java_pro javascript"
  by (simp add: is_duplicate_def sample_eval key_eval similarity_eval)

lemma java_javascript: "is_duplicate java javascript"
  by (simp add: is_duplicate_def sample_eval key_eval similarity_eval)

lemma length_le_concat: "[] \<notin> set G \<Longrightarrow> length G \<le> length (concat G)"
proof (induction G)
  case Nil
  then show ?case by simp
next
  case (Cons g G)
  then have "g \<noteq> []" and "length G \<le> length (concat G)" by auto
  then show ?case by (cases g) simp_all
qed

lemma grouper_resolver_partition_aux:
  assumes d: "distinct (map path all_agents)"
    and G: "groups = find_duplicates all_agents"
    and U: "singles = ungrouped all_agents groups"
  shows "\<exists>unique_agents decision_log bests.
           select_best_from_groups all_agents groups = Inr (unique_agents, decision_log)
           \<and> unique_agents = singles @ bests
           \<and> list_all2 (\<lambda>best g. best \<in> set g) bests groups
           \<and> (\<forall>i<length groups. \<forall>u\<in>set unique_agents. u \<in> set (groups ! i) \<longleftrightarrow> u = bests ! i)
           \<and> mset (concat groups) + mset singles = mset all_agents
           \<and> sum_list (map length groups) + length singles = length all_agents
           \<and> set unique_agents \<subseteq> set all_agents
           \<and> distinct unique_agents
           \<and> length unique_agents \<le> length all_agents"
proof -
  from grouping_partition [OF d] G U
  have part: "mset (concat groups) + mset singles = mset all_agents"
    and dist: "distinct (concat groups @ singles)"
    and ne: "[] \<notin> set groups"
    by simp_all
  from select_from_groups_bests [OF ne, of singles "[]"] obtain bests entries where
    sel: "select_best_from_groups all_agents groups = Inr (singles @ bests, entries)"
    and all: "list_all2 (\<lambda>best g. best \<in> set g) bests groups"
    by (auto simp: select_best_from_groups_def U)
  have len: "length bests = length groups"
    using all by (rule list_all2_lengthD)
  have nth: "\<And>i. i < length groups \<Longrightarrow> bests ! i \<in> set (groups ! i)"
    using all by (simp add: list_all2_conv_all_nth)
  have in_concat: "\<And>i. i < length groups \<Longrightarrow> set (groups ! i) \<subseteq> set (concat groups)"
    by (metis nth_mem concat.simps(2) in_set_conv_decomp concat_append set_append Un_upper1 Un_upper2 subset_trans)
  have dG: "distinct (concat groups)" and dU: "distinct singles"
    and disj: "set (concat groups) \<inter> set singles = {}"
    using dist by simp_all
  have iff: "\<forall>i<length groups. \<forall>u\<in>set (singles @ bests).
               u \<in> set (groups ! i) \<longleftrightarrow> u = bests ! i"
  proof (intro allI impI ballI)
    fix i u assume i: "i < length groups" and u: "u \<in> set (singles @ bests)"
    show "u \<in> set (groups ! i) \<longleftrightarrow> u = bests ! i"
    proof
      assume ui: "u \<in> set (groups ! i)"
      with in_concat [OF i] disj have "u \<notin> set singles" by blast
      with u have "u \<in> set bests" by simp
      then obtain j where j: "j < length groups" "bests ! j = u"
        using len by (metis in_set_conv_nth)
      with nth [of j] have "u \<in> set (groups ! j)" by simp
      from concat_groups_disjoint [OF dG ne i j(1) ui this] j(2)
      show "u = bests ! i" by simp
    next
      assume "u = bests ! i"
      with nth [OF i] show "u \<in> set (groups ! i)" by simp
    qed
  qed
  have sizes: "sum_list (map length groups) + length singles = length all_agents"
    using part by (metis length_concat size_mset size_union)
  have bests_sub: "set bests \<subseteq> set (concat groups)"
  proof
    fix u assume "u \<in> set bests"
    then obtain j where "j < length groups" "bests ! j = u"
      using len by (metis in_set_conv_nth)
    with nth [of j] in_concat [of j] show "u \<in> set (concat groups)" by blast
  qed
  have subset: "set (singles @ bests) \<subseteq> set all_agents"
  proof -
    have "set (concat groups) \<union> set singles = set all_agents"
      using part by (metis set_mset_mset set_mset_union)
    with bests_sub show ?thesis by auto
  qed
  have dB: "distinct bests"
  proof (rule ccontr)
    assume "\<not> distinct bests"
    then obtain i j where ij: "i < length bests" "j < length bests" "i \<noteq> j" "bests ! i = bests ! j"
      by (auto simp: distinct_conv_nth)
    with len nth [of i] nth [of j]
    have "bests ! i \<in> set (groups ! i)" "bests ! i \<in> set (groups ! j)" by simp_all
    from concat_groups_disjoint [OF dG ne _ _ this] ij len show False by simp
  qed
  have dist_unique: "distinct (singles @ bests)"
    using dU dB disj bests_sub by auto
  have "length (singles @ bests) \<le> length all_agents"
    using sizes len length_le_concat [OF ne] by (simp add: length_concat)
  with sel all iff part sizes subset dist_unique show ?thesis by blast
qed

lemma java_java_pro: "is_duplicate java java_pro"
  by (simp add: is_duplicate_def sample_eval key_eval similarity_eval)

lemma find_duplicates_java:
  "find_duplicates [java_pro, java, javascript] = [[java_pro, java]]"
  using java_pro_java java_pro_javascript
  by (simp add: find_duplicates_def) (simp add: sample_eval)

lemma seed_groups_java:
  "seed_groups is_duplicate [java_pro, java, javascript] = [[java_pro, java], [javascript]]"
  using java_pro_java java_pro_javascript by simp

lemma distinct_paths_java: "distinct (map path [java_pro, java, javascript])"
  by (simp add: sample_eval)

lemma seed_groups_place:
  "seed_groups (\<lambda>seed a. similar a seed) (xs @ [a])
   = (case place_agent similar a (seed_groups (\<lambda>seed a. similar a seed) xs) of
        Inr placed \<Rightarrow> placed | Inl e \<Rightarrow> [])
   \<and> (\<exists>placed. place_agent similar a (seed_groups (\<lambda>seed a. similar a seed) xs) = Inr placed)"
proof (induction "\<lambda>seed a. similar a seed" xs rule: seed_groups.induct)
  case 1
  then show ?case by simp
next
  case (2 seed rest)
  let ?dup = "\<lambda>seed a. similar a seed"
  from 2 obtain placed where
    placed: "place_agent similar a (seed_groups ?dup (filter (\<lambda>b. \<not> similar b seed) rest))
             = Inr placed"
    and eq: "seed_groups ?dup (filter (\<lambda>b. \<not> similar b seed) rest @ [a]) = placed"
    by auto
  show ?case
  proof (cases "similar a seed")
    case True
    then show ?thesis by simp
  next
    case False
    with placed eq show ?thesis by simp
  qed
qed

lemma place_agents_seed_groups:
  "place_agents similar ys (seed_groups (\<lambda>seed a. similar a seed) xs)
   = Inr (seed_groups (\<lambda>seed a. similar a seed) (xs @ ys))"
proof (induction ys arbitrary: xs)
  case Nil
  then show ?case by simp
next
  case (Cons y ys)
  from seed_groups_place [of similar xs y] obtain placed where
    "place_agent similar y (seed_groups (\<lambda>seed a. similar a seed) xs) = Inr placed"
    "seed_groups (\<lambda>seed a. similar a seed) (xs @ [y]) = placed"
    by auto
  with Cons.IH [of "xs @ [y]"] show ?case by simp
qed

lemma collector_find_groups_seed_groups:
  "collector_find_groups similar all_agents
   = Inr (seed_groups (\<lambda>seed a. similar a seed) all_agents)"
  using place_agents_seed_groups [of similar all_agents "[]"]
  by (simp add: collector_find_groups_def)

text \<open>
  C2. For every record list with pairwise distinct paths, processed in its order, the
  groups that the deduplicator's grouper saves are exactly the groups of more than one
  record of the seed grouping: in each round the first record not yet in a group is the
  seed, and a remaining record joins the group if and only if \<open>is_duplicate\<close> holds of
  the seed and that record. So every member of a group after its seed is a duplicate of
  the seed, no record of a later group is a duplicate of the seed of an earlier group, and
  no test against a member other than the seed decides anything. The collector's
  grouping loop computes the same seed grouping for its own test, whatever the paths are.
\<close>

theorem seed_only_grouping:
  "(distinct (map path all_agents) \<longrightarrow>
      find_duplicates all_agents
      = filter (\<lambda>g. 1 < length g) (seed_groups is_duplicate all_agents))
   \<and> (\<forall>g\<in>set (seed_groups is_duplicate all_agents).
        \<exists>seed members. g = seed # members \<and> (\<forall>m\<in>set members. is_duplicate seed m))
   \<and> (\<forall>pre g post. seed_groups is_duplicate all_agents = pre @ g # post \<longrightarrow>
        (\<forall>g'\<in>set post. \<forall>m\<in>set g'. \<not> is_duplicate (hd g) m))
   \<and> mset (concat (seed_groups is_duplicate all_agents)) = mset all_agents
   \<and> collector_find_groups similar collected
       = Inr (seed_groups (\<lambda>seed a. similar a seed) collected)"
  using find_duplicates_seed_groups [of all_agents]
    seed_groups_members [of _ is_duplicate all_agents]
    seed_groups_first_match [of is_duplicate all_agents]
    mset_seed_groups [of is_duplicate all_agents]
    collector_find_groups_seed_groups [of similar collected]
  by blast

theorem seed_only_grouping_witness:
  "distinct (map path [java_pro, java, javascript])
   \<and> is_duplicate java_pro java \<and> is_duplicate java javascript
   \<and> \<not> is_duplicate java_pro javascript
   \<and> seed_groups is_duplicate [java_pro, java, javascript] = [[java_pro, java], [javascript]]
   \<and> find_duplicates [java_pro, java, javascript] = [[java_pro, java]]"
  using seed_only_grouping [of "[java_pro, java, javascript]"]
    distinct_paths_java java_pro_java java_javascript java_pro_javascript seed_groups_java
  by simp

section \<open>The similarity engine\<close>

lemma app_ci_api_cli: "is_duplicate app_ci api_cli"
  by (simp add: is_duplicate_def app_ci_def api_cli_def sample_agent_def key_eval similarity_eval)

lemma api_cli_app_ci: "\<not> is_duplicate api_cli app_ci"
  by (simp add: is_duplicate_def app_ci_def api_cli_def sample_agent_def key_eval similarity_eval)

lemma is_duplicate_cases:
  "is_duplicate a b \<longleftrightarrow>
     get_semantic_key (name a) = get_semantic_key (name b)
     \<or> isin (clean_name (name a)) (clean_name (name b))
     \<or> isin (clean_name (name b)) (clean_name (name a))
     \<or> ratio (clean_name (name a)) (clean_name (name b)) > 7 / 10
     \<or> ratio (lower (take 500 (content a))) (lower (take 500 (content b))) > 8 / 10
     \<or> (strip_role_suffix (lower (name a)) = strip_role_suffix (lower (name b))
        \<and> strip_role_suffix (lower (name a)) \<noteq> [])"
  by (auto simp: is_duplicate_def name_similarity_def content_similarity_def Let_def)

lemma is_duplicate_swap:
  assumes "ratio (clean_name (name a)) (clean_name (name b))
           = ratio (clean_name (name b)) (clean_name (name a))"
    and "ratio (lower (take 500 (content a))) (lower (take 500 (content b)))
         = ratio (lower (take 500 (content b))) (lower (take 500 (content a)))"
  shows "is_duplicate a b = is_duplicate b a"
  unfolding is_duplicate_cases using assms by auto

lemma ratio_java_pro_java:
  "ratio (clean_name (name java_pro)) (clean_name (name java)) = 8 / 11"
  "ratio (clean_name (name java)) (clean_name (name java_pro)) = 8 / 11"
  "ratio (lower (take 500 (content java_pro))) (lower (take 500 (content java))) = 0"
  "ratio (lower (take 500 (content java))) (lower (take 500 (content java_pro))) = 0"
  by (simp_all add: sample_eval clean_name_def is_lower_alnum_def lower_eval ratio_eval)

text \<open>
  C5 (as stated, refuted). The claim has the verdict symmetric. The sequence ratio
  depends on the order of its two arguments: of the cleaned names \<open>appci\<close> and
  \<open>apicli\<close> it finds 4 matching characters in one order (ratio 8/11) and 3 in the other
  (ratio 6/11). With \<open>app-ci\<close> as the seed, \<open>api-cli\<close> is a duplicate by the name
  signal; with \<open>api-cli\<close> as the seed, \<open>app-ci\<close> is not a duplicate by any signal.
\<close>

theorem is_duplicate_symmetry_counterexample:
  "is_duplicate app_ci api_cli \<and> \<not> is_duplicate api_cli app_ci"
  using app_ci_api_cli api_cli_app_ci by simp

text \<open>
  C5 (amended). The verdict is the disjunction of six tests: equal semantic keys, the
  first cleaned name inside the second, the second inside the first, the ratio of the
  cleaned names above 0.7, the ratio of the lowercased content prefixes above 0.8, and
  equal non-empty suffix-stripped names. All but the two ratios are symmetric. So for every
  pair of records on which the two ratios do not depend on the order of the arguments,
  the verdict is the same in both orders.
\<close>

theorem is_duplicate_symmetric_up_to_ratio:
  "(is_duplicate a b \<longleftrightarrow>
      get_semantic_key (name a) = get_semantic_key (name b)
      \<or> isin (clean_name (name a)) (clean_name (name b))
      \<or> isin (clean_name (name b)) (clean_name (name a))
      \<or> ratio (clean_name (name a)) (clean_name (name b)) > 7 / 10
      \<or> ratio (lower (take 500 (content a))) (lower (take 500 (content b))) > 8 / 10
      \<or> (strip_role_suffix (lower (name a)) = strip_role_suffix (lower (name b))
         \<and> strip_role_suffix (lower (name a)) \<noteq> []))
   \<and> (ratio (clean_name (name a)) (clean_name (name b))
        = ratio (clean_name (name b)) (clean_name (name a))
      \<and> ratio (lower (take 500 (content a))) (lower (take 500 (content b)))
        = ratio (lower (take 500 (content b))) (lower (take 500 (content a)))
      \<longrightarrow> is_duplicate a b = is_duplicate b a)"
  using is_duplicate_cases [of a b] is_duplicate_swap [of a b] by blast

theorem is_duplicate_symmetric_up_to_ratio_witness:
  "ratio (clean_name (name java_pro)) (clean_name (name java))
     = ratio (clean_name (name java)) (clean_name (name java_pro))
   \<and> ratio (lower (take 500 (content java_pro))) (lower (take 500 (content java)))
     = ratio (lower (take 500 (content java))) (lower (take 500 (content java_pro)))
   \<and> is_duplicate java_pro java \<and> is_duplicate java java_pro"
proof -
  have names: "ratio (clean_name (name java_pro)) (clean_name (name java))
               = ratio (clean_name (name java)) (clean_name (name java_pro))"
    by (simp only: ratio_java_pro_java)
  have contents: "ratio (lower (take 500 (content java_pro))) (lower (take 500 (content java)))
                  = ratio (lower (take 500 (content java))) (lower (take 500 (content java_pro)))"
    by (simp only: ratio_java_pro_java)
  from is_duplicate_symmetric_up_to_ratio [of java_pro java] names contents
  have "is_duplicate java_pro java = is_duplicate java java_pro" by blast
  with java_pro_java names contents show ?thesis by blast
qed

lemma isin_Nil: "isin [] s"
  by (cases s) (simp_all add: startswith_Nil)

lemma empty_clean_name_similarity:
  assumes "clean_name name1 = [] \<or> clean_name name2 = []"
  shows "name_similarity name1 name2 = 9 / 10"
  using assms by (auto simp: name_similarity_def Let_def isin_Nil)

lemma empty_clean_name_duplicate:
  assumes "clean_name (name agent1) = [] \<or> clean_name (name agent2) = []"
  shows "is_duplicate agent1 agent2"
  unfolding is_duplicate_cases using assms by (auto simp: isin_Nil)

lemma of_char_lower_char:
  "(of_char (lower_char c) :: nat) =
     (let n = (of_char c :: nat) in
      if (65 \<le> n \<and> n \<le> 90) \<or> (192 \<le> n \<and> n \<le> 222 \<and> n \<noteq> 215) then n + 32 else n)"
proof -
  have "(of_char c :: nat) < 256" by simp
  then show ?thesis
    by (auto simp: lower_char_def Let_def)
qed

lemma lower_alnum_lower_char: "is_lower_alnum (lower_char c) \<longleftrightarrow> is_ascii_alnum c"
  unfolding is_lower_alnum_def is_ascii_alnum_def of_char_lower_char Let_def
  by auto

lemma clean_name_empty: "clean_name n = [] \<longleftrightarrow> (\<forall>c\<in>set n. \<not> is_ascii_alnum c)"
  by (simp add: clean_name_def lower_def filter_empty_conv lower_alnum_lower_char)

text \<open>
  C10. For every pair of names of which one has an empty cleaned form, which is the
  case exactly when the name holds no letter A to Z or a to z and no digit, the name
  similarity is 0.9, since the empty string is found inside every string; 0.9 exceeds the
  threshold 0.7, and every pair of records with such a name on either side is judged a
  duplicate.
\<close>

theorem empty_clean_name_always_duplicate:
  "(clean_name name1 = [] \<or> clean_name name2 = []
      \<longrightarrow> name_similarity name1 name2 = 9 / 10 \<and> name_similarity name1 name2 > 7 / 10)
   \<and> (clean_name (name agent1) = [] \<or> clean_name (name agent2) = []
      \<longrightarrow> is_duplicate agent1 agent2)
   \<and> (clean_name n = [] \<longleftrightarrow> (\<forall>c\<in>set n. \<not> is_ascii_alnum c))"
  using empty_clean_name_similarity [of name1 name2]
    empty_clean_name_duplicate [of agent1 agent2] clean_name_empty [of n]
  by simp

theorem empty_clean_name_always_duplicate_witness:
  "clean_name ''---'' = []
   \<and> name_similarity ''---'' ''rust'' = 9 / 10
   \<and> name_similarity ''rust'' ''---'' = 9 / 10
   \<and> is_duplicate (sample_agent ''rust'' ''x'' 50) (sample_agent ''---'' ''y'' 10)
   \<and> is_duplicate (sample_agent ''---'' ''y'' 10) (sample_agent ''rust'' ''x'' 50)"
proof -
  have empty: "clean_name ''---'' = []"
    by (simp add: clean_name_def is_lower_alnum_def lower_eval)
  have names: "name (sample_agent ''---'' ''y'' 10) = ''---''"
    by (simp add: sample_agent_def)
  from empty names
    empty_clean_name_always_duplicate
      [of "''---''" "''rust''" "sample_agent ''---'' ''y'' 10" "sample_agent ''rust'' ''x'' 50"]
    empty_clean_name_always_duplicate
      [of "''rust''" "''---''" "sample_agent ''rust'' ''x'' 50" "sample_agent ''---'' ''y'' 10"]
  show ?thesis by simp
qed

section \<open>The loader and the content signal\<close>

lemma load_agent_content:
  assumes "load_agent safe_load (agent_file, text) = Inr a"
  shows "content a = text"
proof -
  from assms obtain header clean_content tools_present s scored where
    "calculate_quality_score
       \<lparr>path = agent_file, name = path_stem agent_file, content = text,
        yaml_data = header, quality_score = 0,
        content_length = int (length text), has_yaml = truthy header,
        has_tools = tools_present, has_structure = isin ''##'' text,
        has_examples = False, source_repo = repo_of_path agent_file\<rparr> = Inr (s, scored)"
    and a: "a = scored\<lparr>quality_score := s\<rparr>"
    by (auto simp: load_agent_def bindE_Inr)
  from calculate_quality_score_result(2) [OF this(1)] a show ?thesis by simp
qed

lemma framed_loaded:
  "load_agent empty_document_loader ([''agents'', ''framed.md''], framed_document) = Inr framed_agent"
  by (simp add: load_agent_def extract_yaml_def extract_yaml_try_def empty_document_loader_def
      is_blank_def framed_document_def startswith_eval numeral_2_eq_2 py_strip_def is_space_def
      calculate_quality_score_def yaml_points_def length_points_def structure_points_def
      specificity_points_def code_points_def repo_points_def repo_in_source_def
      examples_marker_def quality_repos_def lower_eval path_stem_def path_name_def
      is_not_dot_def repo_of_path_def framed_agent_def)

lemma plain_loaded:
  "load_agent empty_document_loader ([''agents'', ''plain.md''], plain_document) = Inr plain_agent"
  by (simp add: load_agent_def extract_yaml_def plain_document_def startswith_eval
      calculate_quality_score_def yaml_points_def length_points_def structure_points_def
      specificity_points_def code_points_def repo_points_def repo_in_source_def
      examples_marker_def quality_repos_def lower_eval path_stem_def path_name_def
      is_not_dot_def repo_of_path_def plain_agent_def)

lemma framed_body: "body_content empty_document_loader framed_document = ''hello''"
  by (simp add: body_content_def extract_yaml_def extract_yaml_try_def
      empty_document_loader_def is_blank_def framed_document_def startswith_eval numeral_2_eq_2
      py_strip_def is_space_def)

lemma plain_body: "body_content empty_document_loader plain_document = ''hello''"
  by (simp add: body_content_def extract_yaml_def plain_document_def startswith_eval)

lemma framed_is_framed: "delimiter_framed framed_document"
  by (simp add: delimiter_framed_def framed_document_def)

lemma ratio_hello: "ratio ''hello'' ''hello'' = 1"
  by (simp add: ratio_eval)

lemma ratio_framed_plain:
  "content_similarity (content framed_agent) (content plain_agent) = 5 / 9"
  by (simp add: content_similarity_def framed_agent_def plain_agent_def framed_document_def
      plain_document_def lower_eval ratio_eval)

text \<open>
  C6 (as stated, refuted). The claim has the signal compare the bodies, the texts with
  the header block removed. The loader stores the whole text as the record's content and
  the signal compares the contents. A document with an empty header block and the same
  document without it have the same body, so by the claim the signal holds (ratio 1); the
  code compares the raw texts, whose ratio is 5/9, and the signal does not hold.
\<close>

theorem content_signal_body_counterexample:
  "delimiter_framed framed_document
   \<and> load_agent empty_document_loader ([''agents'', ''framed.md''], framed_document)
       = Inr framed_agent
   \<and> load_agent empty_document_loader ([''agents'', ''plain.md''], plain_document)
       = Inr plain_agent
   \<and> body_signal empty_document_loader framed_document plain_document
   \<and> \<not> content_similarity (content framed_agent) (content plain_agent) > 8 / 10"
proof -
  have bodies: "body_signal empty_document_loader framed_document plain_document"
    by (simp add: body_signal_def framed_body plain_body lower_eval ratio_hello)
  have raw: "\<not> content_similarity (content framed_agent) (content plain_agent) > 8 / 10"
    by (simp add: ratio_framed_plain)
  from framed_is_framed framed_loaded plain_loaded bodies raw show ?thesis
    by blast
qed

lemma is_duplicate_content_signal:
  assumes "get_semantic_key (name a) \<noteq> get_semantic_key (name b)"
    and "\<not> name_similarity (name a) (name b) > 7 / 10"
    and "\<not> (strip_role_suffix (lower (name a)) = strip_role_suffix (lower (name b))
            \<and> strip_role_suffix (lower (name a)) \<noteq> [])"
  shows "is_duplicate a b
         \<longleftrightarrow> ratio (lower (take 500 (content a))) (lower (take 500 (content b))) > 8 / 10"
  using assms by (auto simp: is_duplicate_def content_similarity_def Let_def)

text \<open>
  C6 (amended). The content of every record that the loader builds is the raw text of
  its file, header block included. The content signal is the sequence ratio of the first
  500 characters of the two contents, in lower case, and it holds exactly when that ratio
  exceeds 0.8. When the semantic keys differ, the name similarity does not exceed 0.7 and
  the suffix-stripped names do not agree, the verdict is exactly this signal.
\<close>

theorem content_signal_on_raw_text:
  "(load_agent safe_load (agent_file, raw_text) = Inr loaded \<longrightarrow> content loaded = raw_text)
   \<and> content_similarity content1 content2
       = ratio (lower (take 500 content1)) (lower (take 500 content2))
   \<and> (get_semantic_key (name a) \<noteq> get_semantic_key (name b)
      \<and> \<not> name_similarity (name a) (name b) > 7 / 10
      \<and> \<not> (strip_role_suffix (lower (name a)) = strip_role_suffix (lower (name b))
            \<and> strip_role_suffix (lower (name a)) \<noteq> [])
      \<longrightarrow> (is_duplicate a b
           \<longleftrightarrow> content_similarity (content a) (content b) > 8 / 10))"
  using load_agent_content [of safe_load agent_file raw_text loaded]
    is_duplicate_content_signal [of a b]
  by (simp add: content_similarity_def)

theorem content_signal_on_raw_text_witness:
  "load_agent empty_document_loader ([''agents'', ''framed.md''], framed_document)
     = Inr framed_agent
   \<and> content framed_agent = framed_document
   \<and> get_semantic_key (name framed_agent) \<noteq> get_semantic_key (name plain_agent)
   \<and> \<not> name_similarity (name framed_agent) (name plain_agent) > 7 / 10
   \<and> content_similarity (content framed_agent) (content plain_agent) = 5 / 9
   \<and> \<not> is_duplicate framed_agent plain_agent"
proof -
  have keys: "get_semantic_key (name framed_agent) \<noteq> get_semantic_key (name plain_agent)"
    by (simp add: framed_agent_def plain_agent_def key_eval)
  have names: "\<not> name_similarity (name framed_agent) (name plain_agent) > 7 / 10"
    by (simp add: framed_agent_def plain_agent_def similarity_eval lower_eval)
  have stripped: "strip_role_suffix (lower (name framed_agent))
                  \<noteq> strip_role_suffix (lower (name plain_agent))"
    by (simp add: framed_agent_def plain_agent_def role_suffixes_def before_line_feed_def
        lower_eval)
  from keys names stripped framed_loaded ratio_framed_plain
    content_signal_on_raw_text
      [of empty_document_loader "[''agents'', ''framed.md'']" framed_document framed_agent
          "content framed_agent" "content plain_agent" framed_agent plain_agent]
  show ?thesis by simp
qed

section \<open>Grouper and resolver together\<close>

lemma load_agent_path:
  assumes "load_agent safe_load (agent_file, raw_text) = Inr a"
  shows "path a = agent_file"
proof -
  from assms obtain header tools_present s scored where
    "calculate_quality_score
       \<lparr>path = agent_file, name = path_stem agent_file, content = raw_text,
        yaml_data = header, quality_score = 0,
        content_length = int (length raw_text), has_yaml = truthy header,
        has_tools = tools_present, has_structure = isin ''##'' raw_text,
        has_examples = False, source_repo = repo_of_path agent_file\<rparr> = Inr (s, scored)"
    and a: "a = scored\<lparr>quality_score := s\<rparr>"
    by (auto simp: load_agent_def bindE_Inr)
  from calculate_quality_score_result(2) [OF this(1)] a show ?thesis by simp
qed

lemma load_agents_paths: "set (map path (load_agents safe_load files)) \<subseteq> set (map fst files)"
proof (induction files)
  case Nil
  then show ?case by simp
next
  case (Cons entry files)
  obtain agent_file raw_text where entry: "entry = (agent_file, raw_text)" by (cases entry)
  show ?case
  proof (cases "load_agent safe_load entry")
    case (Inl e)
    with Cons show ?thesis by auto
  next
    case (Inr a)
    with entry have "path a = agent_file" by (simp add: load_agent_path)
    with Inr Cons entry show ?thesis by auto
  qed
qed

lemma load_agents_distinct_paths:
  "distinct (map fst files) \<Longrightarrow> distinct (map path (load_agents safe_load files))"
proof (induction files)
  case Nil
  then show ?case by simp
next
  case (Cons entry files)
  obtain agent_file raw_text where entry: "entry = (agent_file, raw_text)" by (cases entry)
  from Cons.prems have fresh: "fst entry \<notin> set (map fst files)"
    and rest: "distinct (map path (load_agents safe_load files))"
    using Cons.IH by simp_all
  show ?case
  proof (cases "load_agent safe_load entry")
    case (Inl e)
    with rest show ?thesis by simp
  next
    case (Inr a)
    with entry have "path a = fst entry" by (simp add: load_agent_path)
    with fresh load_agents_paths [of safe_load files]
    have "path a \<notin> set (map path (load_agents safe_load files))" by auto
    with Inr rest show ?thesis by simp
  qed
qed

text \<open>
  C1. The loader gives the files of pairwise distinct paths records of pairwise
  distinct paths. For every record list whose paths are pairwise distinct: with the
  groups that the grouper saves and the records it leaves out of every group as groups of
  one, each input record is in exactly one group, once (the groups and the single records
  together are a rearrangement of the input), the sizes add up to the number of input
  records, the resolver returns the single records followed by one survivor for each
  group, taken from that group and the only survivor in it, and the survivors are
  pairwise different input records, no more than there are input records.
\<close>

theorem grouper_resolver_partition:
  "(distinct (map fst files) \<longrightarrow> distinct (map path (load_agents safe_load files)))
   \<and> (distinct (map path all_agents) \<and> groups = find_duplicates all_agents
        \<and> singles = ungrouped all_agents groups
      \<longrightarrow> (\<exists>unique_agents decision_log bests.
             select_best_from_groups all_agents groups = Inr (unique_agents, decision_log)
             \<and> unique_agents = singles @ bests
             \<and> list_all2 (\<lambda>best g. best \<in> set g) bests groups
             \<and> (\<forall>i<length groups. \<forall>u\<in>set unique_agents.
                   u \<in> set (groups ! i) \<longleftrightarrow> u = bests ! i)
             \<and> mset (concat groups) + mset singles = mset all_agents
             \<and> sum_list (map length groups) + length singles = length all_agents
             \<and> set unique_agents \<subseteq> set all_agents
             \<and> distinct unique_agents
             \<and> length unique_agents \<le> length all_agents))"
  using load_agents_distinct_paths [of files safe_load]
    grouper_resolver_partition_aux [of all_agents groups singles]
  by blast

theorem grouper_resolver_partition_witness:
  "distinct (map fst [([''agents'', ''framed.md''], framed_document),
                      ([''agents'', ''plain.md''], plain_document)])
   \<and> load_agents empty_document_loader
         [([''agents'', ''framed.md''], framed_document),
          ([''agents'', ''plain.md''], plain_document)] = [framed_agent, plain_agent]
   \<and> distinct (map path [java_pro, java, javascript])
   \<and> find_duplicates [java_pro, java, javascript] = [[java_pro, java]]
   \<and> ungrouped [java_pro, java, javascript] [[java_pro, java]] = [javascript]
   \<and> select_best_from_groups [java_pro, java, javascript] [[java_pro, java]]
       = Inr ([javascript, java],
              [\<lparr>decision_group = ''java'', decision_selected = ''java'',
                decision_score = 55, decision_rejected = [''java-pro'']\<rparr>])"
proof -
  have files: "distinct (map fst [([''agents'', ''framed.md''], framed_document),
                                  ([''agents'', ''plain.md''], plain_document)])"
    by simp
  have loaded: "load_agents empty_document_loader
         [([''agents'', ''framed.md''], framed_document),
          ([''agents'', ''plain.md''], plain_document)] = [framed_agent, plain_agent]"
    by (simp add: framed_loaded plain_loaded)
  have singles: "ungrouped [java_pro, java, javascript] [[java_pro, java]] = [javascript]"
    by (simp add: ungrouped_def in_groups_def sample_eval)
  have key: "get_semantic_key ''java'' = ''java''"
    by (simp add: key_eval)
  have "select_best [java_pro, java] = Inr (java, [java_pro])"
    by (simp add: select_best_def py_sort_desc_def sample_eval)
  then have selected:
    "select_best_from_groups [java_pro, java, javascript] [[java_pro, java]]
     = Inr ([javascript, java],
            [\<lparr>decision_group = ''java'', decision_selected = ''java'',
              decision_score = 55, decision_rejected = [''java-pro'']\<rparr>])"
    using key by (simp add: select_best_from_groups_def singles) (simp add: sample_eval)
  note partition = grouper_resolver_partition
    [of "[([''agents'', ''framed.md''], framed_document),
          ([''agents'', ''plain.md''], plain_document)]" empty_document_loader
        "[java_pro, java, javascript]" "[[java_pro, java]]" "[javascript]"]
  from partition files
  have "distinct (map path (load_agents empty_document_loader
          [([''agents'', ''framed.md''], framed_document),
           ([''agents'', ''plain.md''], plain_document)]))"
    by blast
  moreover from partition distinct_paths_java find_duplicates_java [symmetric]
    singles [symmetric]
  have "\<exists>unique_agents decision_log.
          select_best_from_groups [java_pro, java, javascript] [[java_pro, java]]
          = Inr (unique_agents, decision_log)"
    by blast
  ultimately show ?thesis
    using files loaded distinct_paths_java find_duplicates_java singles selected
    by blast
qed

end
